theory Spec2Isabelle
  imports Main "HOL-Library.Word"
begin

unbundle bit_operations_syntax

section \<open>Path tokenizer (filesys/path.c)\<close>

text \<open>
  A C string is modelled as the list of its characters; the terminating NUL is the end of
  the list, so reading at the end of the list yields NUL. A pointer into the string is the
  suffix that starts there, and \<open>src++\<close> is \<open>tl\<close>.
\<close>

definition NAME_MAX :: nat where
  "NAME_MAX = 14"

definition NUL :: char where
  "NUL = CHR 0x00"

definition SLASH :: char where
  "SLASH = CHR ''/''"

fun deref :: "string \<Rightarrow> char" where
  "deref [] = NUL"
| "deref (c # cs) = c"

text \<open>\<open>while (*src == '/') src++;\<close>\<close>

fun skip_slashes :: "string \<Rightarrow> string" where
  "skip_slashes [] = []"
| "skip_slashes (c # cs) = (if c = SLASH then skip_slashes cs else c # cs)"

text \<open>
  The copy loop of \<open>get_next_part\<close>. \<open>part\<close> is the caller's buffer of
  \<open>NAME_MAX + 1\<close> characters and \<open>dst\<close> the index of the next character to be
  written. The result holds a flag (False when the loop left through \<open>return -1\<close>), the
  buffer, \<open>dst\<close> and the rest of the source.
\<close>

fun copy_part :: "string \<Rightarrow> nat \<Rightarrow> string \<Rightarrow> bool \<times> string \<times> nat \<times> string" where
  "copy_part part dst [] = (True, part, dst, [])"
| "copy_part part dst (c # cs) =
     (if c \<noteq> SLASH \<and> c \<noteq> NUL then
        (if dst < NAME_MAX then copy_part (part[dst := c]) (Suc dst) cs
         else (False, part, dst, c # cs))
      else (True, part, dst, c # cs))"

text \<open>
  \<open>get_next_part part srcp\<close> returns the C return value, the buffer \<open>part\<close> and the
  value of \<open>*srcp\<close> at return. \<open>*srcp\<close> is assigned only on the path that returns 1.
\<close>

definition get_next_part :: "string \<Rightarrow> string \<Rightarrow> int \<times> string \<times> string" where
  "get_next_part part srcp =
     (let src = skip_slashes srcp in
      if deref src = NUL then (0, part, srcp)
      else
        (case copy_part part 0 src of
           (False, part', dst, src') \<Rightarrow> (- 1, part', srcp)
         | (True, part', dst, src') \<Rightarrow> (1, part'[dst := NUL], src')))"

text \<open>The string a buffer holds: its characters up to the first NUL.\<close>

definition c_str :: "string \<Rightarrow> string" where
  "c_str buf = takeWhile (\<lambda>c. c \<noteq> NUL) buf"

definition is_name_char :: "char \<Rightarrow> bool" where
  "is_name_char c \<longleftrightarrow> c \<noteq> SLASH \<and> c \<noteq> NUL"

section \<open>Properties of the tokenizer\<close>

lemma skip_slashes_dropWhile: "skip_slashes s = dropWhile (\<lambda>c. c = SLASH) s"
  by (induction s) auto

lemma copy_part_short:
  "dst + length (takeWhile is_name_char s) \<le> NAME_MAX \<Longrightarrow> NAME_MAX \<le> length part \<Longrightarrow>
   copy_part part dst s =
     (True, take dst part @ takeWhile is_name_char s
              @ drop (dst + length (takeWhile is_name_char s)) part,
      dst + length (takeWhile is_name_char s), dropWhile is_name_char s)"
proof (induction s arbitrary: part dst)
  case Nil
  then show ?case by simp
next
  case (Cons c cs)
  show ?case
  proof (cases "is_name_char c")
    case False
    then show ?thesis by (auto simp: is_name_char_def)
  next
    case True
    with Cons.prems have lt: "dst < NAME_MAX" and le: "NAME_MAX \<le> length (part[dst := c])"
      and b: "Suc dst + length (takeWhile is_name_char cs) \<le> NAME_MAX"
      and inb: "dst < length part"
      by auto
    have upd: "take (Suc dst) (part[dst := c]) = take dst part @ [c]"
      using inb by (simp add: take_Suc_conv_app_nth)
    have "copy_part part dst (c # cs) = copy_part (part[dst := c]) (Suc dst) cs"
      using True lt by (simp add: is_name_char_def)
    also have "\<dots> = (True, take (Suc dst) (part[dst := c]) @ takeWhile is_name_char cs
              @ drop (Suc dst + length (takeWhile is_name_char cs)) (part[dst := c]),
      Suc dst + length (takeWhile is_name_char cs), dropWhile is_name_char cs)"
      using Cons.IH [OF b le] by simp
    finally show ?thesis using True upd by simp
  qed
qed

lemma copy_part_long:
  "NAME_MAX < dst + length (takeWhile is_name_char s) \<Longrightarrow> dst \<le> NAME_MAX \<Longrightarrow>
   NAME_MAX \<le> length part \<Longrightarrow>
   copy_part part dst s =
     (False, take dst part @ take (NAME_MAX - dst) (takeWhile is_name_char s)
               @ drop NAME_MAX part,
      NAME_MAX, drop (NAME_MAX - dst) s)"
proof (induction s arbitrary: part dst)
  case Nil
  then show ?case by simp
next
  case (Cons c cs)
  from Cons.prems have nc: "is_name_char c"
    by (auto split: if_splits)
  show ?case
  proof (cases "dst < NAME_MAX")
    case False
    with Cons.prems have "dst = NAME_MAX" by simp
    with nc show ?thesis by (simp add: is_name_char_def)
  next
    case True
    with Cons.prems have inb: "dst < length part" by simp
    have upd: "take (Suc dst) (part[dst := c]) = take dst part @ [c]"
      using inb by (simp add: take_Suc_conv_app_nth)
    have sub: "NAME_MAX - dst = Suc (NAME_MAX - Suc dst)"
      using True by simp
    have "copy_part part dst (c # cs) = copy_part (part[dst := c]) (Suc dst) cs"
      using nc True by (simp add: is_name_char_def)
    also have "\<dots> = (False, take (Suc dst) (part[dst := c])
               @ take (NAME_MAX - Suc dst) (takeWhile is_name_char cs)
               @ drop NAME_MAX (part[dst := c]),
      NAME_MAX, drop (NAME_MAX - Suc dst) cs)"
      using Cons.prems nc True by (intro Cons.IH) auto
    finally show ?thesis using nc upd True by (simp add: sub)
  qed
qed

lemma deref_NUL_iff:
  "deref (dropWhile (\<lambda>c. c = SLASH) src) = NUL \<longleftrightarrow>
   takeWhile is_name_char (dropWhile (\<lambda>c. c = SLASH) src) = []"
proof (cases "dropWhile (\<lambda>c. c = SLASH) src")
  case Nil
  show ?thesis unfolding Nil by simp
next
  case (Cons c cs)
  then have "c \<noteq> SLASH"
    using hd_dropWhile [of "\<lambda>c. c = SLASH" src] by auto
  with Cons show ?thesis by (simp add: is_name_char_def)
qed

lemma c_str_terminated:
  "(\<forall>c \<in> set name. c \<noteq> NUL) \<Longrightarrow> c_str (name @ NUL # rest) = name"
  by (simp add: c_str_def takeWhile_append2)

text \<open>
  Claim C8. \<open>get_next_part\<close> skips the leading slashes of the source. With \<open>name\<close> the
  characters from there up to the next slash or the end of the string: when \<open>name\<close> is
  empty the call returns 0 and leaves buffer and source pointer alone; when \<open>name\<close> has
  more than \<open>NAME_MAX = 14\<close> characters it returns -1 (the buffer then holds the first 14
  of them, the source pointer is not advanced); otherwise it returns 1, the buffer holds
  \<open>name\<close> followed by NUL, and the source pointer is advanced past the slashes and
  \<open>name\<close>.
\<close>

theorem get_next_part_spec:
  assumes "length part = NAME_MAX + 1"
  shows "get_next_part part src =
    (let s = dropWhile (\<lambda>c. c = SLASH) src; name = takeWhile is_name_char s in
     if name = [] then (0, part, src)
     else if NAME_MAX < length name then (- 1, take NAME_MAX name @ drop NAME_MAX part, src)
     else (1, name @ NUL # drop (Suc (length name)) part, dropWhile is_name_char s))
    \<and> (fst (get_next_part part src) = 1 \<longrightarrow>
         c_str (fst (snd (get_next_part part src)))
           = takeWhile is_name_char (dropWhile (\<lambda>c. c = SLASH) src))"
proof -
  define s where "s = dropWhile (\<lambda>c. c = SLASH) src"
  define name where "name = takeWhile is_name_char s"
  have nonul: "\<forall>c \<in> set name. c \<noteq> NUL"
    unfolding name_def by (auto dest: set_takeWhileD simp: is_name_char_def)
  have main: "get_next_part part src =
    (if name = [] then (0, part, src)
     else if NAME_MAX < length name then (- 1, take NAME_MAX name @ drop NAME_MAX part, src)
     else (1, name @ NUL # drop (Suc (length name)) part, dropWhile is_name_char s))"
  proof (cases "name = []")
    case True
    then show ?thesis
      using deref_NUL_iff [of src]
      by (simp add: get_next_part_def skip_slashes_dropWhile s_def name_def)
  next
    case ne: False
    then have d: "deref (skip_slashes src) \<noteq> NUL"
      using deref_NUL_iff [of src] by (simp add: skip_slashes_dropWhile s_def name_def)
    show ?thesis
    proof (cases "NAME_MAX < length name")
      case True
      then have "copy_part part 0 s = (False, take NAME_MAX name @ drop NAME_MAX part,
          NAME_MAX, drop NAME_MAX s)"
        using copy_part_long [of 0 s part] assms by (simp add: name_def)
      then show ?thesis
        using ne True d by (simp add: get_next_part_def skip_slashes_dropWhile s_def)
    next
      case False
      then have cp: "copy_part part 0 s = (True, name @ drop (length name) part,
          length name, dropWhile is_name_char s)"
        using copy_part_short [of 0 s part] assms by (simp add: name_def)
      have "length name < length part" using False assms by simp
      then have "drop (length name) part = part ! length name # drop (Suc (length name)) part"
        by (simp add: Cons_nth_drop_Suc)
      then have "(name @ drop (length name) part)[length name := NUL]
          = name @ NUL # drop (Suc (length name)) part"
        by (simp add: list_update_append)
      then show ?thesis
        using ne False d cp by (simp add: get_next_part_def skip_slashes_dropWhile s_def)
    qed
  qed
  have "fst (get_next_part part src) = 1 \<longrightarrow> c_str (fst (snd (get_next_part part src))) = name"
    using c_str_terminated [OF nonul] by (simp add: main)
  with main show ?thesis
    by (simp add: Let_def s_def name_def)
qed

theorem get_next_part_spec_witness:
  "length ''xxxxxxxxxxxxxxx'' = NAME_MAX + 1 \<and>
   get_next_part ''xxxxxxxxxxxxxxx'' ''//usr/lib'' = (1, ''usr'' @ NUL # ''xxxxxxxxxxx'', ''/lib'') \<and>
   get_next_part ''xxxxxxxxxxxxxxx'' ''///'' = (0, ''xxxxxxxxxxxxxxx'', ''///'') \<and>
   get_next_part ''xxxxxxxxxxxxxxx'' ''/abcdefghijklmno/p''
     = (- 1, ''abcdefghijklmnx'', ''/abcdefghijklmno/p'')"
proof -
  have len: "length ''xxxxxxxxxxxxxxx'' = NAME_MAX + 1"
    by (simp add: NAME_MAX_def)
  show ?thesis
    using len get_next_part_spec [OF len, of "''//usr/lib''"]
      get_next_part_spec [OF len, of "''///''"]
      get_next_part_spec [OF len, of "''/abcdefghijklmno/p''"]
    by (simp add: is_name_char_def SLASH_def NUL_def NAME_MAX_def)
qed

section \<open>Block buffer cache (filesys/cache.c)\<close>

subsection \<open>Sectors, faults and the block devices\<close>

type_synonym byte = "8 word"

type_synonym block_sector_t = "32 word"

text \<open>\<open>struct block *\<close>: the identity of a block device.\<close>

type_synonym block_dev = nat

definition BLOCK_SECTOR_SIZE :: nat where
  "BLOCK_SECTOR_SIZE = 512"

definition MAX_CACHE_SECTORS :: nat where
  "MAX_CACHE_SECTORS = 64"

text \<open>
  The ways a call can leave the defined behaviour of the C program: a failed \<open>ASSERT\<close>
  (a kernel panic), and a use of memory or of a value that C leaves undefined.
\<close>

datatype fault = Assertion_failed | Undefined_behaviour

text \<open>
  \<open>int\<close> and \<open>off_t\<close> (\<open>int32_t\<close>) have 32 bits. \<open>int32 x\<close> is the value that an
  addition or subtraction whose mathematical result is \<open>x\<close> leaves in a variable of
  these types in the compiled kernel: the result in two's complement, reduced modulo
  \<open>2 ^ 32\<close>.
\<close>

definition int32 :: "int \<Rightarrow> int" where
  "int32 x = signed_take_bit 31 x"

lemma int32_id: "- 2147483648 \<le> x \<Longrightarrow> x < 2147483648 \<Longrightarrow> int32 x = x"
  by (simp add: int32_def signed_take_bit_int_eq_self)

lemma int32_in_sector:
  "0 \<le> ofs \<Longrightarrow> 0 \<le> n \<Longrightarrow> n + ofs \<le> int BLOCK_SECTOR_SIZE \<Longrightarrow> int32 (n + ofs) = n + ofs"
  by (rule int32_id) (simp_all add: BLOCK_SECTOR_SIZE_def)

lemma int32_zero: "int32 0 = 0"
  by (simp add: int32_def)

lemma int32_range: "- 2147483648 \<le> int32 x \<and> int32 x < 2147483648"
  using signed_take_bit_int_greater_eq_minus_exp [of 31 x] signed_take_bit_int_less_exp [of 31 x]
  by (simp add: int32_def)

lemma int32_decrease:
  assumes "0 < c" and "c \<le> sz"
  shows "int32 (sz - c) < sz"
proof (cases "sz - c < 2147483648")
  case True
  with assms have "int32 (sz - c) = sz - c" by (intro int32_id) simp_all
  with assms show ?thesis by simp
next
  case False
  with int32_range [of "sz - c"] assms show ?thesis by simp
qed

datatype io_event =
  Block_read block_dev block_sector_t
| Block_write block_dev block_sector_t "byte list"

text \<open>
  Modelled from the spec: the block device layer (\<open>block_read\<close>, \<open>block_write\<close> of
  devices/block.c) is not among the sources; the spec describes it as "fixed-size sector
  read/write (external)". A device holds one buffer per sector; the model also records
  every transfer, in order, so that statements about which device operations a cache
  call performs can be written down.
\<close>

record disk =
  contents :: "block_dev \<times> block_sector_t \<Rightarrow> byte list"
  io_log :: "io_event list"

definition block_read :: "block_dev \<Rightarrow> block_sector_t \<Rightarrow> disk \<Rightarrow> byte list \<times> disk" where
  "block_read dev sec d = (contents d (dev, sec), d\<lparr>io_log := io_log d @ [Block_read dev sec]\<rparr>)"

definition block_write :: "block_dev \<Rightarrow> block_sector_t \<Rightarrow> byte list \<Rightarrow> disk \<Rightarrow> disk" where
  "block_write dev sec buf d =
     d\<lparr>contents := (contents d)((dev, sec) := buf), io_log := io_log d @ [Block_write dev sec buf]\<rparr>"

subsection \<open>Cache entries and the list library\<close>

record cache_block =
  dirty :: bool
  free :: bool
  block :: block_dev
  sector :: block_sector_t
  buffer :: "byte list"
  last_touched :: int

text \<open>The comparison \<open>cache_nru_sort\<close> (cache.c 5-10).\<close>

definition cache_nru_sort :: "cache_block \<Rightarrow> cache_block \<Rightarrow> bool" where
  "cache_nru_sort a b \<longleftrightarrow> last_touched a < last_touched b"

text \<open>
  Modelled from the spec: \<open>list_min\<close> and \<open>list_sort\<close> (lib/kernel/list.c) are not
  among the sources. Both take the comparison \<open>less\<close> as an argument and know the
  elements through it alone. The spec says of the eviction that the victim is the entry
  with the minimum \<open>last_touched\<close>; \<open>list_min\<close> is modelled as the scan that keeps the
  first element no later element is less than, and returns its position (\<open>None\<close> on an
  empty list, where the C function returns the list's tail sentinel). \<open>list_sort\<close> is
  modelled as a stable sort: each element, from the last to the first, is put in front of
  the first element of the sorted rest that is not less than it, so that a comparison
  that never answers true leaves the list as it is.
\<close>

fun list_min_scan :: "('a \<Rightarrow> 'a \<Rightarrow> bool) \<Rightarrow> nat \<Rightarrow> 'a \<Rightarrow> nat \<Rightarrow> 'a list \<Rightarrow> nat" where
  "list_min_scan lt m x i [] = m"
| "list_min_scan lt m x i (e # es) =
     (if lt e x then list_min_scan lt i e (Suc i) es
      else list_min_scan lt m x (Suc i) es)"

definition list_min :: "('a \<Rightarrow> 'a \<Rightarrow> bool) \<Rightarrow> 'a list \<Rightarrow> nat option" where
  "list_min lt xs = (case xs of [] \<Rightarrow> None | x # es \<Rightarrow> Some (list_min_scan lt 0 x 1 es))"

fun list_sort_insert :: "('a \<Rightarrow> 'a \<Rightarrow> bool) \<Rightarrow> 'a \<Rightarrow> 'a list \<Rightarrow> 'a list" where
  "list_sort_insert lt x [] = [x]"
| "list_sort_insert lt x (e # es) =
     (if lt e x then e # list_sort_insert lt x es else x # e # es)"

definition list_sort :: "('a \<Rightarrow> 'a \<Rightarrow> bool) \<Rightarrow> 'a list \<Rightarrow> 'a list" where
  "list_sort lt xs = foldr (list_sort_insert lt) xs []"

subsection \<open>The cache operations\<close>

text \<open>
  The state of the cache is the list \<open>BLOCK_CACHE->cache_blocks\<close> together with the
  block devices. The lock is held for the whole of each operation and is left out.
  \<open>block_cache_nru_evict\<close> returns the position of the victim in place of the pointer.
\<close>

type_synonym cache_state = "cache_block list \<times> disk"

definition block_cache_nru_evict :: "cache_state \<Rightarrow> (nat \<times> cache_state) option" where
  "block_cache_nru_evict cs =
     (case cs of (blocks, d) \<Rightarrow>
        (case list_min cache_nru_sort blocks of
           None \<Rightarrow> None
         | Some i \<Rightarrow>
             let b = blocks ! i;
                 d' = (if \<not> free b \<and> dirty b then block_write (block b) (sector b) (buffer b) d
                       else d)
             in Some (i, blocks[i := b\<lparr>free := True, dirty := False\<rparr>], d')))"

text \<open>
  \<open>block_cache_init\<close>: iteration \<open>i\<close> of the loop takes a block \<open>raw i\<close> from
  \<open>malloc\<close> (its device, sector and buffer are not initialised) and stamps it with the
  reading \<open>ticks i\<close> of \<open>timer_ticks()\<close>.
\<close>

definition block_cache_init :: "(nat \<Rightarrow> cache_block) \<Rightarrow> (nat \<Rightarrow> int) \<Rightarrow> cache_block list" where
  "block_cache_init raw ticks =
     map (\<lambda>i. (raw i)\<lparr>free := True, dirty := False, last_touched := ticks i\<rparr>)
       [0..<MAX_CACHE_SECTORS]"

text \<open>The lookup loop shared by the read and the write path: the first entry in use for the sector.\<close>

fun cache_find :: "block_dev \<Rightarrow> block_sector_t \<Rightarrow> cache_block list \<Rightarrow> nat option" where
  "cache_find dev sec [] = None"
| "cache_find dev sec (b # bs) =
     (if \<not> free b \<and> block b = dev \<and> sector b = sec then Some 0
      else map_option Suc (cache_find dev sec bs))"

text \<open>\<open>memcpy (buffer, b->buffer + sector_ofs, chunk_size)\<close>\<close>

definition copy_out :: "byte list \<Rightarrow> nat \<Rightarrow> nat \<Rightarrow> byte list" where
  "copy_out buf ofs n = take n (drop ofs buf)"

text \<open>\<open>memcpy (b->buffer + sector_ofs, buffer, chunk_size)\<close>\<close>

definition copy_in :: "byte list \<Rightarrow> nat \<Rightarrow> nat \<Rightarrow> byte list \<Rightarrow> byte list" where
  "copy_in buf ofs n src = take ofs buf @ take n src @ drop (ofs + n) buf"

text \<open>
  \<open>now\<close> is the reading of \<open>timer_ticks()\<close> during the call. A negative offset or
  length passes the assertion but makes \<open>memcpy\<close> run outside the buffer.
\<close>

definition block_cache_read_offset ::
  "int \<Rightarrow> block_dev \<Rightarrow> block_sector_t \<Rightarrow> int \<Rightarrow> int \<Rightarrow> cache_state
     \<Rightarrow> fault + (byte list \<times> cache_state)" where
  "block_cache_read_offset now dev sec sector_ofs chunk_size cs =
     (case cs of (blocks, d) \<Rightarrow>
      if \<not> int32 (chunk_size + sector_ofs) \<le> int BLOCK_SECTOR_SIZE then Inl Assertion_failed
      else if sector_ofs < 0 \<or> chunk_size < 0 then Inl Undefined_behaviour
      else
        (case cache_find dev sec blocks of
           Some i \<Rightarrow>
             let b = blocks ! i;
                 out = copy_out (buffer b) (nat sector_ofs) (nat chunk_size);
                 b = b\<lparr>last_touched := now\<rparr>
             in Inr (out, list_sort cache_nru_sort (blocks[i := b]), d)
         | None \<Rightarrow>
             (case block_cache_nru_evict (blocks, d) of
                None \<Rightarrow> Inl Undefined_behaviour
              | Some (i, blocks, d) \<Rightarrow>
                  let b = (blocks ! i)\<lparr>block := dev, sector := sec, free := False\<rparr>;
                      (data, d) = block_read dev sec d;
                      b = b\<lparr>buffer := data\<rparr>;
                      out = copy_out (buffer b) (nat sector_ofs) (nat chunk_size);
                      b = b\<lparr>last_touched := now\<rparr>
                  in Inr (out, list_sort cache_nru_sort (blocks[i := b]), d))))"

definition block_cache_read ::
  "int \<Rightarrow> block_dev \<Rightarrow> block_sector_t \<Rightarrow> cache_state \<Rightarrow> fault + (byte list \<times> cache_state)" where
  "block_cache_read now dev sec cs =
     block_cache_read_offset now dev sec 0 (int BLOCK_SECTOR_SIZE) cs"

definition block_cache_write_offset ::
  "int \<Rightarrow> block_dev \<Rightarrow> block_sector_t \<Rightarrow> byte list \<Rightarrow> int \<Rightarrow> int \<Rightarrow> cache_state
     \<Rightarrow> fault + cache_state" where
  "block_cache_write_offset now dev sec src sector_ofs chunk_size cs =
     (case cs of (blocks, d) \<Rightarrow>
      if \<not> int32 (chunk_size + sector_ofs) \<le> int BLOCK_SECTOR_SIZE then Inl Assertion_failed
      else if sector_ofs < 0 \<or> chunk_size < 0 then Inl Undefined_behaviour
      else
        (case cache_find dev sec blocks of
           Some i \<Rightarrow>
             let b = blocks ! i;
                 b = b\<lparr>buffer := copy_in (buffer b) (nat sector_ofs) (nat chunk_size) src\<rparr>;
                 b = b\<lparr>dirty := True\<rparr>;
                 b = b\<lparr>last_touched := now\<rparr>
             in Inr (list_sort cache_nru_sort (blocks[i := b]), d)
         | None \<Rightarrow>
             (case block_cache_nru_evict (blocks, d) of
                None \<Rightarrow> Inl Undefined_behaviour
              | Some (i, blocks, d) \<Rightarrow>
                  let b = (blocks ! i)\<lparr>block := dev, sector := sec, free := False\<rparr>;
                      (data, d) = block_read dev sec d;
                      b = b\<lparr>buffer := data\<rparr>;
                      b = b\<lparr>buffer := copy_in (buffer b) (nat sector_ofs) (nat chunk_size) src\<rparr>;
                      d = block_write dev sec (buffer b) d;
                      b = b\<lparr>last_touched := now\<rparr>
                  in Inr (list_sort cache_nru_sort (blocks[i := b]), d))))"

definition block_cache_write ::
  "int \<Rightarrow> block_dev \<Rightarrow> block_sector_t \<Rightarrow> byte list \<Rightarrow> cache_state \<Rightarrow> fault + cache_state" where
  "block_cache_write now dev sec src cs =
     block_cache_write_offset now dev sec src 0 (int BLOCK_SECTOR_SIZE) cs"

text \<open>\<open>block_cache_fflush\<close>: the loop over the entries, from the head of the list.\<close>

fun fflush_loop :: "cache_block list \<Rightarrow> disk \<Rightarrow> cache_block list \<times> disk" where
  "fflush_loop [] d = ([], d)"
| "fflush_loop (b # bs) d =
     (if \<not> free b \<and> dirty b then
        (case fflush_loop bs (block_write (block b) (sector b) (buffer b) d) of
           (bs', d') \<Rightarrow> (b\<lparr>dirty := False\<rparr> # bs', d'))
      else (case fflush_loop bs d of (bs', d') \<Rightarrow> (b # bs', d')))"

definition block_cache_fflush :: "cache_state \<Rightarrow> cache_state" where
  "block_cache_fflush cs = (case cs of (blocks, d) \<Rightarrow> fflush_loop blocks d)"

subsection \<open>Properties of the list library model\<close>

lemma list_min_scan_keeps:
  "(\<forall>e \<in> set es. \<not> lt e x) \<Longrightarrow> list_min_scan lt m x i es = m"
  by (induction es arbitrary: i) auto

lemma list_min_scan_key:
  "m < i \<Longrightarrow> i + length es = length xs \<Longrightarrow> drop i xs = es \<Longrightarrow> xs ! m = x \<Longrightarrow>
   list_min_scan (\<lambda>a b. f a < f b) m x i es < length xs \<and>
   f (xs ! list_min_scan (\<lambda>a b. f a < f b) m x i es) \<le> (f x :: 'k :: linorder) \<and>
   (\<forall>e \<in> set es. f (xs ! list_min_scan (\<lambda>a b. f a < f b) m x i es) \<le> f e)"
proof (induction es arbitrary: m x i)
  case Nil
  then show ?case by simp
next
  case (Cons e es)
  from Cons.prems have i: "i < length xs" and e: "xs ! i = e" and d: "drop (Suc i) xs = es"
    by (auto simp: drop_Suc dest: arg_cong [where f = hd] arg_cong [where f = tl]
        simp: hd_drop_conv_nth tl_drop)
  from Cons.prems have len: "Suc i + length es = length xs" by simp
  show ?case
  proof (cases "f e < f x")
    case True
    have "i < Suc i" by simp
    from Cons.IH [OF this len d e] True show ?thesis by auto
  next
    case False
    from Cons.prems have "m < Suc i" by simp
    from Cons.IH [OF this len d Cons.prems(4)] False show ?thesis by auto
  qed
qed

lemma list_min_Some:
  "xs \<noteq> [] \<Longrightarrow> \<exists>i. list_min lt xs = Some i"
  by (cases xs) (auto simp: list_min_def)

lemma list_min_nru:
  assumes "list_min cache_nru_sort blocks = Some i"
  shows "i < length blocks \<and> (\<forall>b \<in> set blocks. last_touched (blocks ! i) \<le> last_touched b)"
proof (cases blocks)
  case Nil
  with assms show ?thesis by (simp add: list_min_def)
next
  case (Cons x es)
  with assms have i: "i = list_min_scan (\<lambda>a b. last_touched a < last_touched b) 0 x 1 es"
    by (simp add: list_min_def cache_nru_sort_def [abs_def])
  have "i < length blocks \<and> last_touched (blocks ! i) \<le> last_touched x \<and>
      (\<forall>e \<in> set es. last_touched (blocks ! i) \<le> last_touched e)"
    unfolding i using list_min_scan_key [of 0 1 es blocks x last_touched] Cons by simp
  with Cons show ?thesis by auto
qed

lemma list_min_sorted:
  assumes "sorted (map last_touched blocks)" and "blocks \<noteq> []"
  shows "list_min cache_nru_sort blocks = Some 0"
proof -
  from assms(2) obtain x es where c: "blocks = x # es" by (cases blocks) auto
  with assms(1) have "\<forall>e \<in> set es. \<not> cache_nru_sort e x"
    by (auto simp: cache_nru_sort_def)
  then show ?thesis
    by (simp add: c list_min_def list_min_scan_keeps)
qed

lemma length_list_sort_insert: "length (list_sort_insert lt x es) = Suc (length es)"
  by (induction es) simp_all

lemma set_list_sort_insert: "set (list_sort_insert lt x es) = insert x (set es)"
  by (induction es) auto

lemma length_list_sort: "length (list_sort lt xs) = length xs"
  by (induction xs) (simp_all add: list_sort_def length_list_sort_insert)

lemma set_list_sort: "set (list_sort lt xs) = set xs"
  by (induction xs) (simp_all add: list_sort_def set_list_sort_insert)

text \<open>With the comparison of the cache the result is in order of \<open>last_touched\<close>.\<close>

lemma sorted_list_sort_insert:
  "sorted (map last_touched es) \<Longrightarrow>
   sorted (map last_touched (list_sort_insert cache_nru_sort x es))"
  by (induction es) (auto simp: cache_nru_sort_def set_list_sort_insert)

lemma sorted_list_sort_nru: "sorted (map last_touched (list_sort cache_nru_sort blocks))"
  by (induction blocks) (simp_all add: list_sort_def sorted_list_sort_insert)

lemma length_list_sort_nru: "length (list_sort cache_nru_sort blocks) = length blocks"
  by (rule length_list_sort)

lemma set_list_sort_nru: "set (list_sort cache_nru_sort blocks) = set blocks"
  by (rule set_list_sort)

subsection \<open>Hit and miss\<close>

lemma cache_find_Some:
  "cache_find dev sec blocks = Some i \<Longrightarrow>
   i < length blocks \<and> \<not> free (blocks ! i) \<and> block (blocks ! i) = dev \<and> sector (blocks ! i) = sec"
  by (induction blocks arbitrary: i) (auto split: if_splits)

lemma cache_find_None:
  "cache_find dev sec blocks = None \<Longrightarrow>
   b \<in> set blocks \<Longrightarrow> free b \<or> block b \<noteq> dev \<or> sector b \<noteq> sec"
  by (induction blocks) (auto split: if_splits)

text \<open>The device operations of an eviction: the write-back of a victim in use and dirty.\<close>

definition write_back :: "cache_block \<Rightarrow> io_event list" where
  "write_back v =
     (if \<not> free v \<and> dirty v then [Block_write (block v) (sector v) (buffer v)] else [])"

lemma evict_miss:
  assumes "list_min cache_nru_sort blocks = Some i"
  shows "block_cache_nru_evict (blocks, d) =
     Some (i, blocks[i := (blocks ! i)\<lparr>free := True, dirty := False\<rparr>],
       if \<not> free (blocks ! i) \<and> dirty (blocks ! i)
       then block_write (block (blocks ! i)) (sector (blocks ! i)) (buffer (blocks ! i)) d else d)"
  using assms by (simp add: block_cache_nru_evict_def Let_def)

lemma evict_keeps_sector:
  assumes "cache_find dev sec blocks = None" and "i < length blocks"
  shows "contents (if \<not> free (blocks ! i) \<and> dirty (blocks ! i)
       then block_write (block (blocks ! i)) (sector (blocks ! i)) (buffer (blocks ! i)) d else d)
       (dev, sec) = contents d (dev, sec)"
  using cache_find_None [OF assms(1), of "blocks ! i"] assms(2)
  by (auto simp: block_write_def)

lemma evict_log:
  "io_log (if \<not> free v \<and> dirty v then block_write (block v) (sector v) (buffer v) d else d)
     = io_log d @ write_back v"
  by (simp add: block_write_def write_back_def)

text \<open>The devices after the eviction of the victim \<open>v\<close>.\<close>

definition write_back_disk :: "cache_block \<Rightarrow> disk \<Rightarrow> disk" where
  "write_back_disk v d =
     (if \<not> free v \<and> dirty v then block_write (block v) (sector v) (buffer v) d else d)"

lemma io_log_write_back_disk: "io_log (write_back_disk v d) = io_log d @ write_back v"
  by (simp add: write_back_disk_def block_write_def write_back_def)

lemma contents_write_back_disk:
  "contents (write_back_disk v d) =
     (if \<not> free v \<and> dirty v then (contents d)((block v, sector v) := buffer v) else contents d)"
  by (simp add: write_back_disk_def block_write_def)

lemma write_back_disk_keeps_sector:
  assumes "cache_find dev sec blocks = None" and "i < length blocks"
  shows "contents (write_back_disk (blocks ! i) d) (dev, sec) = contents d (dev, sec)"
  using cache_find_None [OF assms(1), of "blocks ! i"] assms(2)
  by (auto simp: contents_write_back_disk)

lemma relabel_entry:
  "b\<lparr>dirty := False, block := dev, sector := sec, free := False,
      buffer := data, last_touched := now\<rparr>
   = \<lparr>dirty = False, free = False, block = dev, sector = sec, buffer = data,
      last_touched = now\<rparr>"
  by simp

lemma read_offset_hit:
  assumes "cache_find dev sec blocks = Some i"
    and "0 \<le> ofs" "0 \<le> n" "n + ofs \<le> int BLOCK_SECTOR_SIZE"
  shows "block_cache_read_offset now dev sec ofs n (blocks, d) =
     Inr (copy_out (buffer (blocks ! i)) (nat ofs) (nat n),
          list_sort cache_nru_sort (blocks[i := (blocks ! i)\<lparr>last_touched := now\<rparr>]), d)"
  using assms by (simp add: block_cache_read_offset_def Let_def int32_in_sector)

lemma read_offset_miss:
  assumes miss: "cache_find dev sec blocks = None"
    and victim: "list_min cache_nru_sort blocks = Some i"
    and args: "0 \<le> ofs" "0 \<le> n" "n + ofs \<le> int BLOCK_SECTOR_SIZE"
  shows "block_cache_read_offset now dev sec ofs n (blocks, d) =
     Inr (copy_out (contents d (dev, sec)) (nat ofs) (nat n),
          list_sort cache_nru_sort (blocks[i := \<lparr>dirty = False, free = False, block = dev, sector = sec,
             buffer = contents d (dev, sec), last_touched = now\<rparr>]),
          (write_back_disk (blocks ! i) d)
            \<lparr>io_log := io_log d @ write_back (blocks ! i) @ [Block_read dev sec]\<rparr>)"
proof -
  have i: "i < length blocks" using list_min_nru [OF victim] by simp
  have keep: "contents (write_back_disk (blocks ! i) d) (dev, sec) = contents d (dev, sec)"
    by (rule write_back_disk_keeps_sector [OF miss i])
  show ?thesis
    using args i keep
    by (simp add: block_cache_read_offset_def miss evict_miss [OF victim] Let_def
        int32_in_sector block_read_def write_back_disk_def [symmetric] io_log_write_back_disk relabel_entry)
qed

lemma write_offset_hit:
  assumes "cache_find dev sec blocks = Some i"
    and "0 \<le> ofs" "0 \<le> n" "n + ofs \<le> int BLOCK_SECTOR_SIZE"
  shows "block_cache_write_offset now dev sec src ofs n (blocks, d) =
     Inr (list_sort cache_nru_sort (blocks[i := (blocks ! i)
            \<lparr>buffer := copy_in (buffer (blocks ! i)) (nat ofs) (nat n) src,
             dirty := True, last_touched := now\<rparr>]), d)"
  using assms by (simp add: block_cache_write_offset_def Let_def int32_in_sector)

lemma write_offset_miss:
  assumes miss: "cache_find dev sec blocks = None"
    and victim: "list_min cache_nru_sort blocks = Some i"
    and args: "0 \<le> ofs" "0 \<le> n" "n + ofs \<le> int BLOCK_SECTOR_SIZE"
  shows "block_cache_write_offset now dev sec src ofs n (blocks, d) =
     Inr (list_sort cache_nru_sort (blocks[i := \<lparr>dirty = False, free = False, block = dev, sector = sec,
             buffer = copy_in (contents d (dev, sec)) (nat ofs) (nat n) src,
             last_touched = now\<rparr>]),
          (write_back_disk (blocks ! i) d)
            \<lparr>contents := (contents (write_back_disk (blocks ! i) d))
               ((dev, sec) := copy_in (contents d (dev, sec)) (nat ofs) (nat n) src),
             io_log := io_log d @ write_back (blocks ! i) @
               [Block_read dev sec,
                Block_write dev sec (copy_in (contents d (dev, sec)) (nat ofs) (nat n) src)]\<rparr>)"
proof -
  have i: "i < length blocks" using list_min_nru [OF victim] by simp
  have keep: "contents (write_back_disk (blocks ! i) d) (dev, sec) = contents d (dev, sec)"
    by (rule write_back_disk_keeps_sector [OF miss i])
  show ?thesis
    using args i keep
    by (simp add: block_cache_write_offset_def miss evict_miss [OF victim] Let_def
        int32_in_sector block_read_def block_write_def write_back_disk_def [symmetric] io_log_write_back_disk
        relabel_entry)
qed

subsection \<open>The order of the list\<close>

lemma read_offset_sorted:
  assumes "block_cache_read_offset now dev sec ofs n (blocks, d) = Inr (out, blocks', d')"
  shows "length blocks' = length blocks \<and> sorted (map last_touched blocks')"
  using assms
  by (auto simp: block_cache_read_offset_def block_cache_nru_evict_def Let_def
      sorted_list_sort_nru length_list_sort_nru
      split: if_splits option.splits prod.splits)

lemma write_offset_sorted:
  assumes "block_cache_write_offset now dev sec src ofs n (blocks, d) = Inr (blocks', d')"
  shows "length blocks' = length blocks \<and> sorted (map last_touched blocks')"
  using assms
  by (auto simp: block_cache_write_offset_def block_cache_nru_evict_def Let_def
      sorted_list_sort_nru length_list_sort_nru
      split: if_splits option.splits prod.splits)

lemma fflush_loop_last_touched:
  "map last_touched (fst (fflush_loop blocks d)) = map last_touched blocks"
  by (induction blocks d rule: fflush_loop.induct) (auto split: prod.splits)

lemma init_last_touched:
  "map last_touched (block_cache_init raw ticks) = map ticks [0..<MAX_CACHE_SECTORS]"
  by (simp add: block_cache_init_def comp_def)

lemma sorted_map_upt:
  fixes f :: "nat \<Rightarrow> int"
  assumes "\<forall>i j. i \<le> j \<longrightarrow> f i \<le> f j"
  shows "sorted (map f [0..<n])"
  using assms by (simp add: sorted_iff_nth_mono)

text \<open>
  The states of the cache that the program can be in: the state \<open>block_cache_init\<close>
  leaves (the readings of the timer do not decrease from one iteration to the next), and
  the state after each completed operation on such a state.
\<close>

inductive cache_reachable :: "cache_state \<Rightarrow> bool" where
  after_init:
    "(\<forall>i j. i \<le> j \<longrightarrow> ticks i \<le> ticks j) \<Longrightarrow> cache_reachable (block_cache_init raw ticks, d)"
| after_read_offset:
    "cache_reachable cs \<Longrightarrow> block_cache_read_offset now dev sec ofs n cs = Inr (out, cs') \<Longrightarrow>
     cache_reachable cs'"
| after_read:
    "cache_reachable cs \<Longrightarrow> block_cache_read now dev sec cs = Inr (out, cs') \<Longrightarrow>
     cache_reachable cs'"
| after_write_offset:
    "cache_reachable cs \<Longrightarrow> block_cache_write_offset now dev sec src ofs n cs = Inr cs' \<Longrightarrow>
     cache_reachable cs'"
| after_write:
    "cache_reachable cs \<Longrightarrow> block_cache_write now dev sec src cs = Inr cs' \<Longrightarrow>
     cache_reachable cs'"
| after_fflush:
    "cache_reachable cs \<Longrightarrow> cache_reachable (block_cache_fflush cs)"

lemma reachable_sorted:
  "cache_reachable cs \<Longrightarrow>
   length (fst cs) = MAX_CACHE_SECTORS \<and> sorted (map last_touched (fst cs))"
proof (induction rule: cache_reachable.induct)
  case (after_init ticks raw d)
  then show ?case
    using sorted_map_upt [of ticks MAX_CACHE_SECTORS]
    by (simp add: init_last_touched) (simp add: block_cache_init_def)
next
  case (after_read_offset cs now dev sec ofs n out cs')
  then show ?case
    using read_offset_sorted [of now dev sec ofs n "fst cs" "snd cs" out "fst cs'" "snd cs'"]
    by simp
next
  case (after_read cs now dev sec out cs')
  then show ?case
    using read_offset_sorted [of now dev sec 0 "int BLOCK_SECTOR_SIZE" "fst cs" "snd cs" out
        "fst cs'" "snd cs'"]
    by (simp add: block_cache_read_def)
next
  case (after_write_offset cs now dev sec src ofs n cs')
  then show ?case
    using write_offset_sorted [of now dev sec src ofs n "fst cs" "snd cs" "fst cs'" "snd cs'"]
    by simp
next
  case (after_write cs now dev sec src cs')
  then show ?case
    using write_offset_sorted [of now dev sec src 0 "int BLOCK_SECTOR_SIZE" "fst cs" "snd cs"
        "fst cs'" "snd cs'"]
    by (simp add: block_cache_write_def)
next
  case (after_fflush cs)
  have "length (fst (fflush_loop (fst cs) (snd cs))) = length (fst cs)"
    using arg_cong [OF fflush_loop_last_touched [of "fst cs" "snd cs"], of length] by simp
  with after_fflush show ?case
    by (simp add: block_cache_fflush_def split_beta fflush_loop_last_touched)
qed

text \<open>
  Claim C9. In every state the cache can be in (after \<open>block_cache_init\<close> and after every
  completed read, write and flush), the list holds 64 entries in nondecreasing order of
  \<open>last_touched\<close>, and the entry \<open>list_min\<close> selects for eviction is the head of the
  list.
\<close>

theorem cache_list_sorted:
  assumes "cache_reachable cs"
  shows "length (fst cs) = MAX_CACHE_SECTORS \<and> sorted (map last_touched (fst cs)) \<and>
         list_min cache_nru_sort (fst cs) = Some 0"
proof -
  from reachable_sorted [OF assms]
  have l: "length (fst cs) = MAX_CACHE_SECTORS" and s: "sorted (map last_touched (fst cs))"
    by simp_all
  from l have "fst cs \<noteq> []" by (auto simp: MAX_CACHE_SECTORS_def)
  with l s show ?thesis by (simp add: list_min_sorted)
qed

subsection \<open>Example states of the cache\<close>

definition zero_sector :: "byte list" where
  "zero_sector = replicate BLOCK_SECTOR_SIZE 0"

definition ones_sector :: "byte list" where
  "ones_sector = replicate BLOCK_SECTOR_SIZE 255"

definition raw_block :: cache_block where
  "raw_block = \<lparr>dirty = True, free = False, block = 0, sector = 0, buffer = zero_sector,
     last_touched = 0\<rparr>"

definition blank_disk :: disk where
  "blank_disk = \<lparr>contents = (\<lambda>k. zero_sector), io_log = []\<rparr>"

text \<open>The cache as \<open>block_cache_init\<close> leaves it when the timer reads 0 throughout.\<close>

definition fresh_cache :: "cache_block list" where
  "fresh_cache = block_cache_init (\<lambda>i. raw_block) (\<lambda>i. 0)"

text \<open>
  The cache after sector 7 of device 0 was written twice during tick 0, starting from
  \<open>fresh_cache\<close>: the entry at the head is in use and dirty, the other 63 are free.
\<close>

definition dirty_head_cache :: "cache_block list" where
  "dirty_head_cache =
     \<lparr>dirty = True, free = False, block = 0, sector = 7, buffer = ones_sector,
      last_touched = 0\<rparr>
     # replicate 63 (raw_block\<lparr>free := True, dirty := False, last_touched := 0\<rparr>)"

lemma fresh_cache_replicate:
  "fresh_cache = replicate 64 (raw_block\<lparr>free := True, dirty := False, last_touched := 0\<rparr>)"
  by (simp add: fresh_cache_def block_cache_init_def MAX_CACHE_SECTORS_def map_replicate_const)

lemma cache_find_all_free:
  "(\<forall>b \<in> set blocks. free b) \<Longrightarrow> cache_find dev sec blocks = None"
  by (induction blocks) auto

lemma fresh_cache_miss: "cache_find dev sec fresh_cache = None"
  by (rule cache_find_all_free) (simp add: fresh_cache_replicate)

lemma fresh_cache_victim: "list_min cache_nru_sort fresh_cache = Some 0"
  by (rule list_min_sorted) (simp_all add: fresh_cache_replicate)

lemma dirty_head_cache_miss: "sec \<noteq> 7 \<Longrightarrow> cache_find dev sec dirty_head_cache = None"
  by (simp add: dirty_head_cache_def cache_find_all_free)

lemma dirty_head_cache_victim: "list_min cache_nru_sort dirty_head_cache = Some 0"
  by (rule list_min_sorted) (simp_all add: dirty_head_cache_def)

subsection \<open>Eviction\<close>

text \<open>
  Claim C5. On a miss of a cache read or write (with arguments that pass the assertion),
  the victim \<open>list_min\<close> selects is an entry whose \<open>last_touched\<close> is minimal among
  all 64 entries. The device operations of the call are, in this order: the write of the
  victim's buffer to the victim's own device and sector when the victim is in use and
  dirty (\<open>write_back\<close>), then the read of the requested sector (and on the write path
  the write of the new buffer). In the resulting list the victim's entry is replaced by one
  labelled with the requested device and sector and filled from the device.
\<close>

theorem eviction_on_miss:
  assumes "length blocks = MAX_CACHE_SECTORS"
    and "cache_find dev sec blocks = None"
    and "0 \<le> ofs" and "0 \<le> n" and "n + ofs \<le> int BLOCK_SECTOR_SIZE"
  shows "\<exists>i. list_min cache_nru_sort blocks = Some i \<and> i < length blocks \<and>
     (\<forall>b \<in> set blocks. last_touched (blocks ! i) \<le> last_touched b) \<and>
     block_cache_read_offset now dev sec ofs n (blocks, d) =
       Inr (copy_out (contents d (dev, sec)) (nat ofs) (nat n),
          list_sort cache_nru_sort (blocks[i := \<lparr>dirty = False, free = False, block = dev, sector = sec,
             buffer = contents d (dev, sec), last_touched = now\<rparr>]),
          (write_back_disk (blocks ! i) d)
            \<lparr>io_log := io_log d @ write_back (blocks ! i) @ [Block_read dev sec]\<rparr>) \<and>
     block_cache_write_offset now dev sec src ofs n (blocks, d) =
       Inr (list_sort cache_nru_sort (blocks[i := \<lparr>dirty = False, free = False, block = dev, sector = sec,
             buffer = copy_in (contents d (dev, sec)) (nat ofs) (nat n) src,
             last_touched = now\<rparr>]),
          (write_back_disk (blocks ! i) d)
            \<lparr>contents := (contents (write_back_disk (blocks ! i) d))
               ((dev, sec) := copy_in (contents d (dev, sec)) (nat ofs) (nat n) src),
             io_log := io_log d @ write_back (blocks ! i) @
               [Block_read dev sec,
                Block_write dev sec (copy_in (contents d (dev, sec)) (nat ofs) (nat n) src)]\<rparr>)"
proof -
  from assms(1) have "blocks \<noteq> []" by (auto simp: MAX_CACHE_SECTORS_def)
  then obtain i where i: "list_min cache_nru_sort blocks = Some i"
    using list_min_Some by blast
  show ?thesis
    using i list_min_nru [OF i] read_offset_miss [OF assms(2) i assms(3-5)]
      write_offset_miss [OF assms(2) i assms(3-5)]
    by blast
qed

theorem eviction_on_miss_witness:
  "length dirty_head_cache = MAX_CACHE_SECTORS \<and> cache_find 0 9 dirty_head_cache = None \<and>
   (0::int) \<le> 0 \<and> (0::int) \<le> 512 \<and> (512::int) + 0 \<le> int BLOCK_SECTOR_SIZE \<and>
   list_min cache_nru_sort dirty_head_cache = Some 0 \<and>
   io_log (snd (snd (projr
     (block_cache_read_offset 3 0 9 0 512 (dirty_head_cache, blank_disk)))))
     = [Block_write 0 7 ones_sector, Block_read 0 9]"
proof -
  have len: "length dirty_head_cache = MAX_CACHE_SECTORS"
    by (simp add: dirty_head_cache_def MAX_CACHE_SECTORS_def)
  have miss: "cache_find 0 9 dirty_head_cache = None"
    by (simp add: dirty_head_cache_miss)
  have args: "(0::int) \<le> 0" "(0::int) \<le> 512" "(512::int) + 0 \<le> int BLOCK_SECTOR_SIZE"
    by (simp_all add: BLOCK_SECTOR_SIZE_def)
  have head: "dirty_head_cache ! 0 = \<lparr>dirty = True, free = False, block = 0, sector = 7,
      buffer = ones_sector, last_touched = 0\<rparr>"
    by (simp add: dirty_head_cache_def)
  from eviction_on_miss [OF len miss args, where now = 3 and d = blank_disk
      and src = ones_sector]
  show ?thesis
    using len miss args
    by (auto simp: dirty_head_cache_victim head write_back_def blank_disk_def)
qed

subsection \<open>Writes\<close>

lemma copy_in_outside:
  assumes "n \<le> length src" and "k < length buf" and "k < ofs \<or> ofs + n \<le> k"
  shows "copy_in buf ofs n src ! k = buf ! k"
proof -
  from assms(3) show ?thesis
  proof
    assume "k < ofs"
    with assms(2) show ?thesis by (simp add: copy_in_def nth_append)
  next
    assume ge: "ofs + n \<le> k"
    define A where "A = take ofs buf"
    define B where "B = take n src"
    define C where "C = drop (ofs + n) buf"
    have lA: "length A = ofs" using ge assms(2) by (simp add: A_def)
    have lB: "length B = n" using assms(1) by (simp add: B_def)
    have "\<not> k < ofs" and "\<not> k - ofs < n"
      using ge by arith+
    then have "(A @ B @ C) ! k = C ! (k - ofs - n)"
      using lA lB by (simp add: nth_append)
    also have "\<dots> = buf ! k"
      using ge assms(2) by (simp add: C_def)
    finally show ?thesis by (simp add: copy_in_def A_def B_def C_def)
  qed
qed

lemma copy_in_inside:
  assumes "n \<le> length src" and "ofs + n \<le> length buf" and "k < n"
  shows "copy_in buf ofs n src ! (ofs + k) = src ! k"
proof -
  define A where "A = take ofs buf"
  define B where "B = take n src"
  define C where "C = drop (ofs + n) buf"
  have lA: "length A = ofs" using assms(2) by (simp add: A_def)
  have lB: "length B = n" using assms(1) by (simp add: B_def)
  have "(A @ B @ C) ! (ofs + k) = B ! k"
    using assms(3) lA lB by (simp add: nth_append)
  also have "\<dots> = src ! k"
    using assms(3) by (simp add: B_def)
  finally show ?thesis by (simp add: copy_in_def A_def B_def C_def)
qed

lemma length_copy_in:
  assumes "n \<le> length src" and "ofs + n \<le> length buf"
  shows "length (copy_in buf ofs n src) = length buf"
proof -
  from assms(2) have l1: "length (take ofs buf) = ofs" by simp
  from assms(1) have l2: "length (take n src) = n" by simp
  show ?thesis
    unfolding copy_in_def length_append l1 l2 using assms(2) by simp
qed

lemma copy_in_full:
  "length buf = n \<Longrightarrow> length src = n \<Longrightarrow> copy_in buf 0 n src = src"
  by (simp add: copy_in_def)

text \<open>
  Claim C3, as the code has it. A cache write that finds the sector cached copies the
  bytes into the cached buffer, marks the entry dirty and performs no device operation,
  for a full sector and for a part of one. A cache write that misses reads the sector
  from the device into the victim's entry whatever the offset and the length, copies the
  bytes over it, writes the resulting buffer to the device at once and leaves the entry
  clean. In both cases the bytes of the buffer outside the written range are kept.
\<close>

theorem cache_write_hit_and_miss:
  assumes "length blocks = MAX_CACHE_SECTORS"
    and "0 \<le> ofs" and "0 \<le> n" and "n + ofs \<le> int BLOCK_SECTOR_SIZE"
    and "nat n \<le> length src"
  shows "(\<forall>i. cache_find dev sec blocks = Some i \<longrightarrow>
       block_cache_write_offset now dev sec src ofs n (blocks, d) =
         Inr (list_sort cache_nru_sort (blocks[i := (blocks ! i)
                \<lparr>buffer := copy_in (buffer (blocks ! i)) (nat ofs) (nat n) src,
                 dirty := True, last_touched := now\<rparr>]), d)) \<and>
     (cache_find dev sec blocks = None \<longrightarrow>
       (\<exists>i. list_min cache_nru_sort blocks = Some i \<and>
         block_cache_write_offset now dev sec src ofs n (blocks, d) =
           Inr (list_sort cache_nru_sort (blocks[i := \<lparr>dirty = False, free = False, block = dev,
                 sector = sec,
                 buffer = copy_in (contents d (dev, sec)) (nat ofs) (nat n) src,
                 last_touched = now\<rparr>]),
              (write_back_disk (blocks ! i) d)
                \<lparr>contents := (contents (write_back_disk (blocks ! i) d))
                   ((dev, sec) := copy_in (contents d (dev, sec)) (nat ofs) (nat n) src),
                 io_log := io_log d @ write_back (blocks ! i) @
                   [Block_read dev sec,
                    Block_write dev sec
                      (copy_in (contents d (dev, sec)) (nat ofs) (nat n) src)]\<rparr>))) \<and>
     (\<forall>(buf :: byte list) k. k < length buf \<and> (k < nat ofs \<or> nat ofs + nat n \<le> k) \<longrightarrow>
        copy_in buf (nat ofs) (nat n) src ! k = buf ! k)"
proof (intro conjI allI impI)
  fix i
  assume "cache_find dev sec blocks = Some i"
  then show "block_cache_write_offset now dev sec src ofs n (blocks, d) =
         Inr (list_sort cache_nru_sort (blocks[i := (blocks ! i)
                \<lparr>buffer := copy_in (buffer (blocks ! i)) (nat ofs) (nat n) src,
                 dirty := True, last_touched := now\<rparr>]), d)"
    by (rule write_offset_hit [OF _ assms(2-4)])
next
  assume miss: "cache_find dev sec blocks = None"
  from assms(1) have "blocks \<noteq> []" by (auto simp: MAX_CACHE_SECTORS_def)
  then obtain i where i: "list_min cache_nru_sort blocks = Some i"
    using list_min_Some by blast
  show "\<exists>i. list_min cache_nru_sort blocks = Some i \<and>
         block_cache_write_offset now dev sec src ofs n (blocks, d) =
           Inr (list_sort cache_nru_sort (blocks[i := \<lparr>dirty = False, free = False, block = dev,
                 sector = sec,
                 buffer = copy_in (contents d (dev, sec)) (nat ofs) (nat n) src,
                 last_touched = now\<rparr>]),
              (write_back_disk (blocks ! i) d)
                \<lparr>contents := (contents (write_back_disk (blocks ! i) d))
                   ((dev, sec) := copy_in (contents d (dev, sec)) (nat ofs) (nat n) src),
                 io_log := io_log d @ write_back (blocks ! i) @
                   [Block_read dev sec,
                    Block_write dev sec
                      (copy_in (contents d (dev, sec)) (nat ofs) (nat n) src)]\<rparr>)"
    using i write_offset_miss [OF miss i assms(2-4)] by blast
next
  fix buf :: "byte list" and k
  assume "k < length buf \<and> (k < nat ofs \<or> nat ofs + nat n \<le> k)"
  then show "copy_in buf (nat ofs) (nat n) src ! k = buf ! k"
    using copy_in_outside [OF assms(5)] by blast
qed

text \<open>The state after the first write of a full sector into the fresh cache.\<close>

definition after_first_write :: cache_state where
  "after_first_write =
     (list_sort cache_nru_sort (fresh_cache[0 := \<lparr>dirty = False, free = False, block = 0, sector = 5,
         buffer = ones_sector, last_touched = 1\<rparr>]),
      blank_disk\<lparr>contents := (contents blank_disk)((0, 5) := ones_sector),
        io_log := [Block_read 0 5, Block_write 0 5 ones_sector]\<rparr>)"

lemma write_back_fresh: "write_back (fresh_cache ! 0) = []"
  by (simp add: fresh_cache_replicate write_back_def)

lemma write_back_disk_fresh: "write_back_disk (fresh_cache ! 0) d = d"
  by (simp add: fresh_cache_replicate write_back_disk_def)

lemma first_write:
  "block_cache_write 1 0 5 ones_sector (fresh_cache, blank_disk) = Inr after_first_write"
proof -
  have "copy_in zero_sector 0 BLOCK_SECTOR_SIZE ones_sector = ones_sector"
    by (rule copy_in_full) (simp_all add: zero_sector_def ones_sector_def)
  then show ?thesis
    using write_offset_miss [OF fresh_cache_miss fresh_cache_victim,
        where ofs = 0 and n = "int BLOCK_SECTOR_SIZE" and dev = 0 and sec = 5 and now = 1
          and src = ones_sector and d = blank_disk]
    by (simp add: block_cache_write_def write_back_fresh write_back_disk_fresh
        after_first_write_def) (simp add: blank_disk_def)
qed

lemma no_dirty_after_first_write: "filter dirty (fst after_first_write) = []"
proof -
  have "\<forall>b \<in> set (fresh_cache[0 := \<lparr>dirty = False, free = False, block = 0, sector = 5,
         buffer = ones_sector, last_touched = 1\<rparr>]). \<not> dirty b"
    using set_update_subset_insert [of fresh_cache 0]
    by (fastforce simp: fresh_cache_replicate)
  then show ?thesis
    by (simp add: after_first_write_def filter_empty_conv set_list_sort_nru)
qed

theorem cache_write_hit_and_miss_witness:
  "length fresh_cache = MAX_CACHE_SECTORS \<and> (0::int) \<le> 0 \<and> (0::int) \<le> 512 \<and>
   (512::int) + 0 \<le> int BLOCK_SECTOR_SIZE \<and> nat 512 \<le> length ones_sector \<and>
   cache_find 0 5 fresh_cache = None \<and>
   block_cache_write_offset 1 0 5 ones_sector 0 512 (fresh_cache, blank_disk)
     = Inr after_first_write"
proof -
  have len: "length fresh_cache = MAX_CACHE_SECTORS"
    by (simp add: fresh_cache_replicate MAX_CACHE_SECTORS_def)
  have args: "(0::int) \<le> 0" "(0::int) \<le> 512" "(512::int) + 0 \<le> int BLOCK_SECTOR_SIZE"
    "nat 512 \<le> length ones_sector"
    by (simp_all add: BLOCK_SECTOR_SIZE_def ones_sector_def)
  have full: "copy_in zero_sector 0 512 ones_sector = ones_sector"
    by (rule copy_in_full) (simp_all add: zero_sector_def ones_sector_def BLOCK_SECTOR_SIZE_def)
  from cache_write_hit_and_miss [OF len args, where dev = 0 and sec = 5 and now = 1
      and d = blank_disk]
  show ?thesis
    using len args full
    by (auto simp: fresh_cache_miss fresh_cache_victim write_back_fresh write_back_disk_fresh
        after_first_write_def blank_disk_def)
qed

text \<open>
  Claim C3 as stated fails on a miss. Writing a full sector (offset 0, length 512) to
  the fresh cache reads the sector from the device before it overwrites it, and writes
  it to the device at once; no entry of the cache is dirty afterwards. Writing one byte
  (a partial write) to the fresh cache reaches the device within the call as well.
\<close>

theorem cache_write_counterexample:
  "block_cache_write 1 0 5 ones_sector (fresh_cache, blank_disk) = Inr after_first_write \<and>
   io_log (snd after_first_write) = [Block_read 0 5, Block_write 0 5 ones_sector] \<and>
   filter dirty (fst after_first_write) = [] \<and>
   io_log (snd (projr (block_cache_write_offset 1 0 5 ones_sector 0 1 (fresh_cache, blank_disk))))
     = [Block_read 0 5, Block_write 0 5 (copy_in zero_sector 0 1 ones_sector)] \<and>
   filter dirty (fst (projr
     (block_cache_write_offset 1 0 5 ones_sector 0 1 (fresh_cache, blank_disk)))) = []"
proof -
  have part: "block_cache_write_offset 1 0 5 ones_sector 0 1 (fresh_cache, blank_disk) =
      Inr (list_sort cache_nru_sort (fresh_cache[0 := \<lparr>dirty = False, free = False, block = 0, sector = 5,
             buffer = copy_in zero_sector 0 1 ones_sector, last_touched = 1\<rparr>]),
           blank_disk\<lparr>contents := (contents blank_disk)
               ((0, 5) := copy_in zero_sector 0 1 ones_sector),
             io_log := [Block_read 0 5, Block_write 0 5 (copy_in zero_sector 0 1 ones_sector)]\<rparr>)"
    using write_offset_miss [OF fresh_cache_miss fresh_cache_victim,
        where ofs = 0 and n = 1 and dev = 0 and sec = 5 and now = 1
          and src = ones_sector and d = blank_disk]
    by (simp add: write_back_fresh write_back_disk_fresh BLOCK_SECTOR_SIZE_def)
      (simp add: blank_disk_def)
  have clean: "\<forall>b \<in> set (fresh_cache[0 := \<lparr>dirty = False, free = False, block = 0, sector = 5,
         buffer = copy_in zero_sector 0 1 ones_sector, last_touched = 1\<rparr>]). \<not> dirty b"
    using set_update_subset_insert [of fresh_cache 0]
    by (fastforce simp: fresh_cache_replicate)
  show ?thesis
    using clean
    by (simp add: first_write no_dirty_after_first_write part filter_empty_conv
        set_list_sort_nru) (simp add: after_first_write_def)
qed

text \<open>A state of the cache that the program reaches, for claim C9.\<close>

theorem cache_list_sorted_witness:
  "cache_reachable after_first_write \<and>
   length (fst after_first_write) = MAX_CACHE_SECTORS \<and>
   sorted (map last_touched (fst after_first_write)) \<and>
   list_min cache_nru_sort (fst after_first_write) = Some 0"
proof -
  have "cache_reachable (fresh_cache, blank_disk)"
    unfolding fresh_cache_def by (rule cache_reachable.after_init) simp
  then have r: "cache_reachable after_first_write"
    using first_write by (rule cache_reachable.after_write)
  from cache_list_sorted [OF r] r show ?thesis by simp
qed

section \<open>Inode layer (filesys/inode.c)\<close>

subsection \<open>Sectors as arrays of 32-bit words\<close>

text \<open>
  inode.c reads sectors into \<open>block_sector_t buffer[128]\<close> and into
  \<open>struct inode_disk\<close>: arrays of 32-bit little-endian words laid over the 512 bytes.
\<close>

definition le32_bytes :: "32 word \<Rightarrow> byte list" where
  "le32_bytes w = [ucast w, ucast (drop_bit 8 w), ucast (drop_bit 16 w), ucast (drop_bit 24 w)]"

definition le32_word :: "byte list \<Rightarrow> 32 word" where
  "le32_word bs = foldr (\<lambda>b w. ucast b OR push_bit 8 w) bs 0"

definition sector_of_words :: "32 word list \<Rightarrow> byte list" where
  "sector_of_words ws = concat (map le32_bytes ws)"

definition words_of_sector :: "byte list \<Rightarrow> 32 word list" where
  "words_of_sector bs = map (\<lambda>k. le32_word (take 4 (drop (4 * k) bs))) [0..<128]"

text \<open>\<open>static char zeros[BLOCK_SECTOR_SIZE]\<close>\<close>

definition zeros :: "byte list" where
  "zeros = replicate BLOCK_SECTOR_SIZE 0"

text \<open>The on-disk inode. \<open>off_t\<close> is a signed 32-bit integer; \<open>length_d\<close> holds its value.\<close>

record inode_disk =
  length_d :: int
  magic :: "32 word"
  direct_pointer :: "block_sector_t list"
  indirect_pointer :: block_sector_t
  doubly_indirect_pointer :: block_sector_t
  type_d :: "32 word"
  unused :: "32 word list"

definition INODE_MAGIC :: "32 word" where
  "INODE_MAGIC = 0x494e4f44"

definition inode_disk_of_sector :: "byte list \<Rightarrow> inode_disk" where
  "inode_disk_of_sector bs =
     (let ws = words_of_sector bs in
      \<lparr>length_d = sint (ws ! 0), magic = ws ! 1, direct_pointer = take 12 (drop 2 ws),
       indirect_pointer = ws ! 14, doubly_indirect_pointer = ws ! 15, type_d = ws ! 16,
       unused = drop 17 ws\<rparr>)"

definition sector_of_inode_disk :: "inode_disk \<Rightarrow> byte list" where
  "sector_of_inode_disk d =
     sector_of_words ([word_of_int (length_d d), magic d] @ direct_pointer d @
       [indirect_pointer d, doubly_indirect_pointer d, type_d d] @ unused d)"

subsection \<open>The file system device and the free map\<close>

text \<open>
  Modelled from the spec: the free map (filesys/free-map.c) is not among the sources; the
  spec describes it as a "bitmap of free sectors; allocate/release". Bit \<open>i\<close> of the
  bitmap is set when sector \<open>i\<close> is in use. \<open>free_map_allocate\<close> is modelled for the
  only count inode.c asks for, one sector: it takes the first sector whose bit is clear
  and fails when there is none. \<open>free_map_release\<close> clears the bit.
\<close>

type_synonym free_map_t = "bool list"

fun first_clear :: "bool list \<Rightarrow> nat option" where
  "first_clear [] = None"
| "first_clear (b # bs) = (if \<not> b then Some 0 else map_option Suc (first_clear bs))"

definition free_map_allocate :: "free_map_t \<Rightarrow> (block_sector_t \<times> free_map_t) option" where
  "free_map_allocate fm =
     (case first_clear fm of None \<Rightarrow> None | Some i \<Rightarrow> Some (word_of_nat i, fm[i := True]))"

definition free_map_release :: "free_map_t \<Rightarrow> block_sector_t \<Rightarrow> free_map_t" where
  "free_map_release fm s = fm[unat s := False]"

definition free_count :: "free_map_t \<Rightarrow> nat" where
  "free_count fm = length (filter Not fm)"

text \<open>
  The state the inode layer works on: the free map and the sectors of \<open>fs_device\<close> as
  they are read and written through the cache. inode.c reaches the device only by
  \<open>block_cache_read\<close> and \<open>block_cache_write\<close> (a whole sector) and by
  \<open>block_cache_read_offset\<close> and \<open>block_cache_write_offset\<close> (a part of one); the
  latter two start with \<open>ASSERT (chunk_size + sector_ofs <= BLOCK_SECTOR_SIZE)\<close>.
\<close>

record fs =
  free_map :: free_map_t
  sectors :: "block_sector_t \<Rightarrow> byte list"

definition fs_cache_read :: "fs \<Rightarrow> block_sector_t \<Rightarrow> byte list" where
  "fs_cache_read st sec = sectors st sec"

definition fs_cache_write :: "fs \<Rightarrow> block_sector_t \<Rightarrow> byte list \<Rightarrow> fs" where
  "fs_cache_write st sec buf = st\<lparr>sectors := (sectors st)(sec := buf)\<rparr>"

definition fs_cache_read_offset :: "fs \<Rightarrow> block_sector_t \<Rightarrow> int \<Rightarrow> int \<Rightarrow> fault + byte list" where
  "fs_cache_read_offset st sec sector_ofs chunk_size =
     (if \<not> int32 (chunk_size + sector_ofs) \<le> int BLOCK_SECTOR_SIZE then Inl Assertion_failed
      else if sector_ofs < 0 \<or> chunk_size < 0 then Inl Undefined_behaviour
      else Inr (copy_out (sectors st sec) (nat sector_ofs) (nat chunk_size)))"

definition fs_cache_write_offset ::
  "fs \<Rightarrow> block_sector_t \<Rightarrow> byte list \<Rightarrow> int \<Rightarrow> int \<Rightarrow> fault + fs" where
  "fs_cache_write_offset st sec src sector_ofs chunk_size =
     (if \<not> int32 (chunk_size + sector_ofs) \<le> int BLOCK_SECTOR_SIZE then Inl Assertion_failed
      else if sector_ofs < 0 \<or> chunk_size < 0 then Inl Undefined_behaviour
      else Inr (st\<lparr>sectors := (sectors st)
             (sec := copy_in (sectors st sec) (nat sector_ofs) (nat chunk_size) src)\<rparr>))"

subsection \<open>Resizing\<close>

text \<open>
  The three leaf loops of \<open>inode_resize\<close> (lines 112-131 over \<open>direct_pointer\<close>, lines
  155-174 over the indirect block, lines 233-255 over an indirect block of the doubly
  indirect block) have the same body: slot \<open>i\<close> of the array \<open>buf\<close> of \<open>n\<close> pointers
  stands for the sector at position \<open>base + i\<close> of the file. The result holds False when
  an allocation failed, with the state and the array at that moment.
\<close>

function resize_slots ::
  "int \<Rightarrow> nat \<Rightarrow> nat \<Rightarrow> nat \<Rightarrow> fs \<Rightarrow> block_sector_t list \<Rightarrow> bool \<times> fs \<times> block_sector_t list" where
  "resize_slots len base n i st buf =
     (if i < n then
        (let shrink = (len \<le> int BLOCK_SECTOR_SIZE * int (base + i) \<and> buf ! i \<noteq> 0);
             st1 = (if shrink then st\<lparr>free_map := free_map_release (free_map st) (buf ! i)\<rparr>
                    else st);
             buf1 = (if shrink then buf[i := 0] else buf)
         in if len > int BLOCK_SECTOR_SIZE * int (base + i) \<and> buf1 ! i = 0 then
              (case free_map_allocate (free_map st1) of
                 None \<Rightarrow> (False, st1, buf1)
               | Some (sec, fm) \<Rightarrow>
                   resize_slots len base n (Suc i)
                     (fs_cache_write (st1\<lparr>free_map := fm\<rparr>) sec zeros) (buf1[i := sec]))
            else resize_slots len base n (Suc i) st1 buf1)
      else (True, st, buf))"
  by pat_completeness auto
termination
  by (relation "measure (\<lambda>(len, base, n, i, st, buf). n - i)") auto

declare resize_slots.simps [simp del]

text \<open>
  Taking a sector for an index block: \<open>free_map_allocate\<close>, then \<open>zeros\<close> written to
  the new sector. \<open>None\<close> when the allocation fails.
\<close>

definition allocate_zeroed :: "fs \<Rightarrow> (block_sector_t \<times> fs) option" where
  "allocate_zeroed st =
     (case free_map_allocate (free_map st) of
        None \<Rightarrow> None
      | Some (sec, fm) \<Rightarrow> Some (sec, fs_cache_write (st\<lparr>free_map := fm\<rparr>) sec zeros))"

text \<open>
  The loop over the entries of the doubly indirect block (lines 208-267). It leaves by
  \<open>break\<close> at the first entry that is not allocated and not needed.
\<close>

function resize_doubly_loop ::
  "int \<Rightarrow> nat \<Rightarrow> fs \<Rightarrow> block_sector_t list \<Rightarrow> bool \<times> fs \<times> block_sector_t list" where
  "resize_doubly_loop len i st buf =
     (if i < 128 then
        (if buf ! i = 0 \<and> len \<le> int ((12 + 128 + 128 * i) * BLOCK_SECTOR_SIZE)
         then (True, st, buf)
         else
           (case (if buf ! i = 0 then
                    (case allocate_zeroed st of
                       None \<Rightarrow> None
                     | Some (sec, st1) \<Rightarrow> Some (st1, buf[i := sec], replicate 128 0))
                  else Some (st, buf, words_of_sector (fs_cache_read st (buf ! i)))) of
              None \<Rightarrow> (False, st, buf)
            | Some (st1, buf1, inside) \<Rightarrow>
                (case resize_slots len (12 + 128 + 128 * i) 128 0 st1 inside of
                   (ok, st2, inside2) \<Rightarrow>
                     if \<not> ok then (False, st2, buf1)
                     else if buf1 ! i \<noteq> 0
                          \<and> len \<le> int ((12 + 128 + 128 * i) * BLOCK_SECTOR_SIZE)
                     then resize_doubly_loop len (Suc i)
                            (st2\<lparr>free_map := free_map_release (free_map st2) (buf1 ! i)\<rparr>)
                            (buf1[i := 0])
                     else resize_doubly_loop len (Suc i)
                            (fs_cache_write st2 (buf1 ! i) (sector_of_words inside2))
                            buf1)))
      else (True, st, buf))"
  by pat_completeness auto
termination
  by (relation "measure (\<lambda>(len, i, st, buf). 128 - i)") auto

declare resize_doubly_loop.simps [simp del]

text \<open>The segment for the direct pointers (lines 111-131).\<close>

definition resize_direct :: "fs \<Rightarrow> inode_disk \<Rightarrow> int \<Rightarrow> bool \<times> fs \<times> inode_disk" where
  "resize_direct st d len =
     (case resize_slots len 0 12 0 st (direct_pointer d) of
        (ok, st1, dp) \<Rightarrow> (ok, st1, d\<lparr>direct_pointer := dp\<rparr>))"

text \<open>The segment for the indirect pointers (lines 137-182).\<close>

definition resize_indirect :: "fs \<Rightarrow> inode_disk \<Rightarrow> int \<Rightarrow> bool \<times> fs \<times> inode_disk" where
  "resize_indirect st d len =
     (case (if indirect_pointer d = 0 then
              (case allocate_zeroed st of
                 None \<Rightarrow> None
               | Some (sec, st1) \<Rightarrow> Some (st1, d\<lparr>indirect_pointer := sec\<rparr>, replicate 128 0))
            else Some (st, d, words_of_sector (fs_cache_read st (indirect_pointer d)))) of
        None \<Rightarrow> (False, st, d)
      | Some (st1, d1, buf) \<Rightarrow>
          (case resize_slots len 12 128 0 st1 buf of
             (ok, st2, buf2) \<Rightarrow>
               if \<not> ok then (False, st2, d1)
               else if indirect_pointer d1 \<noteq> 0 \<and> len \<le> 12 * 512
               then (True,
                     st2\<lparr>free_map := free_map_release (free_map st2) (indirect_pointer d1)\<rparr>,
                     d1\<lparr>indirect_pointer := 0\<rparr>)
               else (True,
                     fs_cache_write st2 (indirect_pointer d1) (sector_of_words buf2), d1)))"

text \<open>The segment for the doubly indirect pointers (lines 189-275).\<close>

definition resize_doubly_indirect :: "fs \<Rightarrow> inode_disk \<Rightarrow> int \<Rightarrow> bool \<times> fs \<times> inode_disk" where
  "resize_doubly_indirect st d len =
     (case (if doubly_indirect_pointer d = 0 then
              (case allocate_zeroed st of
                 None \<Rightarrow> None
               | Some (sec, st1) \<Rightarrow>
                   Some (st1, d\<lparr>doubly_indirect_pointer := sec\<rparr>, replicate 128 0))
            else Some (st, d, words_of_sector (fs_cache_read st (doubly_indirect_pointer d)))) of
        None \<Rightarrow> (False, st, d)
      | Some (st1, d1, buf) \<Rightarrow>
          (case resize_doubly_loop len 0 st1 buf of
             (ok, st2, buf2) \<Rightarrow>
               if \<not> ok then (False, st2, d1)
               else if doubly_indirect_pointer d1 \<noteq> 0
                    \<and> len \<le> int ((12 + 128) * BLOCK_SECTOR_SIZE)
               then (True,
                     st2\<lparr>free_map :=
                       free_map_release (free_map st2) (doubly_indirect_pointer d1)\<rparr>,
                     d1\<lparr>doubly_indirect_pointer := 0\<rparr>)
               else (True,
                     fs_cache_write st2 (doubly_indirect_pointer d1) (sector_of_words buf2),
                     d1)))"

text \<open>
  One activation of \<open>inode_resize\<close> up to its return or to the first allocation that
  fails. The flag is False in the second case, where the C function goes on with
  \<open>inode_resize (disk_inode, disk_inode->length); return false;\<close>.
\<close>

definition inode_resize_pass :: "fs \<Rightarrow> inode_disk \<Rightarrow> int \<Rightarrow> bool \<times> fs \<times> inode_disk" where
  "inode_resize_pass st d len =
     (case resize_direct st d len of
        (ok, st1, d1) \<Rightarrow>
          if \<not> ok then (False, st1, d1)
          else if indirect_pointer d1 = 0 \<and> len \<le> int (12 * BLOCK_SECTOR_SIZE)
          then (True, st1, d1\<lparr>length_d := len\<rparr>)
          else
            (case resize_indirect st1 d1 len of
               (ok, st2, d2) \<Rightarrow>
                 if \<not> ok then (False, st2, d2)
                 else if doubly_indirect_pointer d2 = 0
                      \<and> len \<le> int ((12 + 128) * BLOCK_SECTOR_SIZE)
                 then (True, st2, d2\<lparr>length_d := len\<rparr>)
                 else
                   (case resize_doubly_indirect st2 d2 len of
                      (ok, st3, d3) \<Rightarrow>
                        if \<not> ok then (False, st3, d3)
                        else (True, st3, d3\<lparr>length_d := len\<rparr>))))"

text \<open>
  \<open>inode_resize\<close>. After a failed allocation the function calls itself with the length
  recorded in the inode and returns false whatever that call returns. Nothing in the code
  bounds the depth of these calls, so the function is partial: \<open>None\<close> stands for a chain
  of calls that does not end.
\<close>

partial_function (option) inode_resize ::
  "fs \<Rightarrow> inode_disk \<Rightarrow> int \<Rightarrow> (bool \<times> fs \<times> inode_disk) option" where
  "inode_resize st d len =
     (case inode_resize_pass st d len of
        (ok, st1, d1) \<Rightarrow>
          if ok then Some (True, st1, d1)
          else Option.bind (inode_resize st1 d1 (length_d d1))
                 (\<lambda>r. Some (False, fst (snd r), snd (snd r))))"

subsection \<open>Addressing, reading and writing\<close>

text \<open>
  The in-memory inode. The list element, the locks and the condition variable are left
  out: the model runs one call at a time.
\<close>

record inode =
  sector_i :: block_sector_t
  open_cnt :: int
  removed :: bool
  deny_write_cnt :: int

text \<open>Division and remainder of C on \<open>int\<close>: the quotient is truncated towards zero.\<close>

definition c_div :: "int \<Rightarrow> int \<Rightarrow> int" where
  "c_div a b = sgn a * sgn b * (\<bar>a\<bar> div \<bar>b\<bar>)"

definition c_mod :: "int \<Rightarrow> int \<Rightarrow> int" where
  "c_mod a b = a - b * c_div a b"

text \<open>
  \<open>byte_to_sector\<close>. For a position below the length and at or beyond
  \<open>(12 + 128 + 128 * 128) * BLOCK_SECTOR_SIZE\<close> control reaches the end of the function
  without a \<open>return\<close>; a negative position below \<open>-511\<close> indexes \<open>direct_pointer\<close>
  below its start. Both are undefined behaviour. In the other branches the position is
  not negative, and \<open>extra\<close> (a \<open>uint32_t\<close>) is a natural number.
\<close>

definition byte_to_sector :: "fs \<Rightarrow> inode \<Rightarrow> int \<Rightarrow> fault + block_sector_t" where
  "byte_to_sector st inode pos =
     (let data = inode_disk_of_sector (fs_cache_read st (sector_i inode)) in
      if pos < length_d data then
        if pos < int (12 * BLOCK_SECTOR_SIZE) then
          (let idx = c_div pos (int BLOCK_SECTOR_SIZE) in
           if idx < 0 then Inl Undefined_behaviour else Inr (direct_pointer data ! nat idx))
        else if pos < int ((12 + 128) * BLOCK_SECTOR_SIZE) then
          (let extra = nat (pos - int (12 * BLOCK_SECTOR_SIZE));
               buf = words_of_sector (fs_cache_read st (indirect_pointer data))
           in Inr (buf ! (extra div BLOCK_SECTOR_SIZE)))
        else if pos < int ((12 + 128 + 128 * 128) * BLOCK_SECTOR_SIZE) then
          (let extra = nat (pos - int ((12 + 128) * BLOCK_SECTOR_SIZE));
               buf = words_of_sector (fs_cache_read st (doubly_indirect_pointer data));
               indirect = buf ! (extra div BLOCK_SECTOR_SIZE div 128);
               buf = words_of_sector (fs_cache_read st indirect)
           in Inr (buf ! (extra div BLOCK_SECTOR_SIZE mod 128)))
        else Inl Undefined_behaviour
      else Inr (- 1))"

definition inode_length :: "fs \<Rightarrow> inode \<Rightarrow> int" where
  "inode_length st inode = length_d (inode_disk_of_sector (fs_cache_read st (sector_i inode)))"

text \<open>
  The loop of \<open>inode_read_at\<close>. \<open>out\<close> holds the bytes stored into the caller's buffer
  so far (the destination of each chunk is \<open>buffer + bytes_read\<close>).
\<close>

function inode_read_loop ::
  "fs \<Rightarrow> inode \<Rightarrow> int \<Rightarrow> int \<Rightarrow> int \<Rightarrow> byte list \<Rightarrow> fault + (int \<times> byte list)" where
  "inode_read_loop st inode sz offset bytes_read out =
     (if sz > 0 then
        (case byte_to_sector st inode offset of
           Inl f \<Rightarrow> Inl f
         | Inr sector_idx \<Rightarrow>
             (let sector_ofs = c_mod offset (int BLOCK_SECTOR_SIZE);
                  inode_left = int32 (inode_length st inode - offset);
                  sector_left = int32 (int BLOCK_SECTOR_SIZE - sector_ofs);
                  min_left = (if inode_left < sector_left then inode_left else sector_left);
                  chunk_size = (if sz < min_left then sz else min_left)
              in if chunk_size \<le> 0 then Inr (bytes_read, out)
                 else
                   (case (if sector_ofs = 0 \<and> chunk_size = int BLOCK_SECTOR_SIZE
                          then Inr (fs_cache_read st sector_idx)
                          else fs_cache_read_offset st sector_idx sector_ofs chunk_size) of
                      Inl f \<Rightarrow> Inl f
                    | Inr data \<Rightarrow>
                        inode_read_loop st inode (int32 (sz - chunk_size))
                          (int32 (offset + chunk_size)) (int32 (bytes_read + chunk_size))
                          (out @ data))))
      else Inr (bytes_read, out))"
  by pat_completeness auto
termination
  by (relation "measure (\<lambda>(st, inode, sz, offset, bytes_read, out). nat sz)")
    (auto simp: int32_decrease int32_zero split: if_splits)

declare inode_read_loop.simps [simp del]

definition inode_read_at :: "fs \<Rightarrow> inode \<Rightarrow> int \<Rightarrow> int \<Rightarrow> fault + (int \<times> byte list)" where
  "inode_read_at st inode sz offset = inode_read_loop st inode sz offset 0 []"

text \<open>
  The loop of \<open>inode_write_at\<close>. \<open>src\<close> is the caller's buffer; the source of each
  chunk is \<open>buffer + bytes_written\<close>.
\<close>

function inode_write_loop ::
  "fs \<Rightarrow> inode \<Rightarrow> byte list \<Rightarrow> int \<Rightarrow> int \<Rightarrow> int \<Rightarrow> fault + (int \<times> fs)" where
  "inode_write_loop st inode src sz offset bytes_written =
     (if sz > 0 then
        (case byte_to_sector st inode offset of
           Inl f \<Rightarrow> Inl f
         | Inr sector_idx \<Rightarrow>
             (let sector_ofs = c_mod offset (int BLOCK_SECTOR_SIZE);
                  inode_left = int32 (inode_length st inode - offset);
                  sector_left = int32 (int BLOCK_SECTOR_SIZE - sector_ofs);
                  min_left = (if inode_left < sector_left then inode_left else sector_left);
                  chunk_size = (if sz < min_left then sz else min_left)
              in if chunk_size \<le> 0 then Inr (bytes_written, st)
                 else
                   (case (if sector_ofs = 0 \<and> chunk_size = int BLOCK_SECTOR_SIZE
                          then Inr (fs_cache_write st sector_idx
                                 (take BLOCK_SECTOR_SIZE (drop (nat bytes_written) src)))
                          else fs_cache_write_offset st sector_idx
                                 (drop (nat bytes_written) src) sector_ofs chunk_size) of
                      Inl f \<Rightarrow> Inl f
                    | Inr st1 \<Rightarrow>
                        inode_write_loop st1 inode src (int32 (sz - chunk_size))
                          (int32 (offset + chunk_size)) (int32 (bytes_written + chunk_size)))))
      else Inr (bytes_written, st))"
  by pat_completeness auto
termination
  by (relation "measure (\<lambda>(st, inode, src, sz, offset, bytes_written). nat sz)")
    (auto simp: int32_decrease int32_zero split: if_splits)

declare inode_write_loop.simps [simp del]

text \<open>
  \<open>inode_write_at\<close>. The result of \<open>inode_resize\<close> is not looked at; the disk inode is
  written back after it in either case. \<open>malloc\<close> is taken to succeed.
\<close>

definition inode_write_at ::
  "fs \<Rightarrow> inode \<Rightarrow> byte list \<Rightarrow> int \<Rightarrow> int \<Rightarrow> (fault + (int \<times> fs)) option" where
  "inode_write_at st inode src sz offset =
     (if deny_write_cnt inode \<noteq> 0 then Some (Inr (0, st))
      else
        (let disk_inode = inode_disk_of_sector (fs_cache_read st (sector_i inode)) in
         Option.bind
           (if length_d disk_inode < int32 (sz + offset) then
              Option.bind (inode_resize st disk_inode (int32 (sz + offset)))
                (\<lambda>r. Some (fs_cache_write (fst (snd r)) (sector_i inode)
                              (sector_of_inode_disk (snd (snd r)))))
            else Some st)
           (\<lambda>st1. Some (inode_write_loop st1 inode src sz offset 0))))"

subsection \<open>Creating, removing and closing\<close>


definition inode_remove :: "inode \<Rightarrow> inode" where
  "inode_remove inode = inode\<lparr>removed := True\<rparr>"

text \<open>
  \<open>inode_close\<close> on an inode that is not NULL. The result holds the state and the
  in-memory inode, \<open>None\<close> once it has been released with \<open>free\<close>.
\<close>

definition inode_close :: "fs \<Rightarrow> inode \<Rightarrow> (fs \<times> inode option) option" where
  "inode_close st inode0 =
     (let inode = inode0\<lparr>open_cnt := open_cnt inode0 - 1\<rparr> in
      if open_cnt inode = 0 then
        (if removed inode then
           (let disk_inode = inode_disk_of_sector (fs_cache_read st (sector_i inode)) in
            Option.bind (inode_resize st disk_inode 0)
              (\<lambda>r. Some ((fst (snd r))\<lparr>free_map :=
                             free_map_release (free_map (fst (snd r))) (sector_i inode)\<rparr>,
                          None)))
         else Some (st, None))
      else Some (st, Some inode))"

subsection \<open>Properties of addressing\<close>

lemma c_div_nonneg: "0 \<le> a \<Longrightarrow> 0 < b \<Longrightarrow> c_div a b = a div b"
  by (cases "a = 0") (simp_all add: c_div_def)

lemma c_mod_nonneg: "0 \<le> a \<Longrightarrow> 0 < b \<Longrightarrow> c_mod a b = a mod b"
  by (simp add: c_mod_def c_div_nonneg minus_mult_div_eq_mod)

text \<open>
  Claim C6. For an inode whose on-disk length is \<open>L\<close> and a byte offset \<open>p\<close> with
  \<open>0 \<le> p < L\<close>, \<open>byte_to_sector\<close> returns \<open>direct_pointer[p / 512]\<close> when
  \<open>p < 12 * 512\<close>; entry \<open>(p - 12 * 512) / 512\<close> of the indirect block when
  \<open>12 * 512 \<le> p < (12 + 128) * 512\<close>; and, when
  \<open>(12 + 128) * 512 \<le> p < (12 + 128 + 128 * 128) * 512\<close>, entry
  \<open>((p - (12 + 128) * 512) / 512) mod 128\<close> of the indirect block whose sector is entry
  \<open>(p - (12 + 128) * 512) / (128 * 512)\<close> of the doubly indirect block.
\<close>

theorem byte_to_sector_addressing:
  assumes "data = inode_disk_of_sector (fs_cache_read st (sector_i inode))"
    and "0 \<le> p" and "p < length_d data"
  shows "(p < 12 * 512 \<longrightarrow>
            byte_to_sector st inode p = Inr (direct_pointer data ! nat (p div 512))) \<and>
         (12 * 512 \<le> p \<and> p < (12 + 128) * 512 \<longrightarrow>
            byte_to_sector st inode p =
              Inr (words_of_sector (fs_cache_read st (indirect_pointer data))
                     ! nat ((p - 12 * 512) div 512))) \<and>
         ((12 + 128) * 512 \<le> p \<and> p < (12 + 128 + 128 * 128) * 512 \<longrightarrow>
            byte_to_sector st inode p =
              Inr (words_of_sector (fs_cache_read st
                     (words_of_sector (fs_cache_read st (doubly_indirect_pointer data))
                        ! nat ((p - (12 + 128) * 512) div (128 * 512))))
                     ! nat (((p - (12 + 128) * 512) div 512) mod 128)))"
proof (intro conjI impI)
  assume "p < 12 * 512"
  then show "byte_to_sector st inode p = Inr (direct_pointer data ! nat (p div 512))"
    using assms c_div_nonneg [of p 512]
    by (simp add: byte_to_sector_def Let_def BLOCK_SECTOR_SIZE_def)
next
  assume r: "12 * 512 \<le> p \<and> p < (12 + 128) * 512"
  have "nat (p - 6144) div 512 = nat ((p - 6144) div 512)"
    using r by (simp add: nat_div_distrib)
  then show "byte_to_sector st inode p =
      Inr (words_of_sector (fs_cache_read st (indirect_pointer data))
             ! nat ((p - 12 * 512) div 512))"
    using assms r by (simp add: byte_to_sector_def Let_def BLOCK_SECTOR_SIZE_def)
next
  assume r: "(12 + 128) * 512 \<le> p \<and> p < (12 + 128 + 128 * 128) * 512"
  have a: "nat (p - 71680) div 512 = nat ((p - 71680) div 512)"
    using r by (simp add: nat_div_distrib)
  have b: "nat ((p - 71680) div 512) div 128 = nat ((p - 71680) div 65536)"
  proof -
    have "(p - 71680) div 512 div 128 = (p - 71680) div 65536"
      by (simp add: div_mult2_eq [symmetric])
    moreover have "nat ((p - 71680) div 512) div 128 = nat ((p - 71680) div 512 div 128)"
      using r by (simp add: nat_div_distrib)
    ultimately show ?thesis by simp
  qed
  have "0 \<le> (p - 71680) div 512"
    using r by (simp add: pos_imp_zdiv_nonneg_iff)
  then have c: "nat ((p - 71680) div 512) mod 128 = nat ((p - 71680) div 512 mod 128)"
    by (simp add: nat_mod_distrib)
  show "byte_to_sector st inode p =
      Inr (words_of_sector (fs_cache_read st
             (words_of_sector (fs_cache_read st (doubly_indirect_pointer data))
                ! nat ((p - (12 + 128) * 512) div (128 * 512))))
             ! nat (((p - (12 + 128) * 512) div 512) mod 128))"
    using assms r by (simp add: byte_to_sector_def Let_def BLOCK_SECTOR_SIZE_def a b c)
qed

subsection \<open>The assertion of the cache entry points\<close>

lemma byte_to_sector_no_assert: "byte_to_sector st inode pos \<noteq> Inl Assertion_failed"
  by (simp add: byte_to_sector_def Let_def)

lemma c_mod_range: "- 512 < c_mod a 512 \<and> c_mod a 512 < 512"
proof (cases "0 \<le> a")
  case True
  then show ?thesis by (simp add: c_mod_nonneg)
next
  case False
  then have "c_div a 512 = - ((- a) div 512)" by (simp add: c_div_def)
  then have "c_mod a 512 = - ((- a) mod 512)"
    by (simp add: c_mod_def minus_mult_div_eq_mod [symmetric])
  then show ?thesis by simp
qed

text \<open>
  The sum the assertion tests does not wrap: a chunk is positive and at most
  \<open>sector_left\<close>, and \<open>sector_ofs\<close> lies between \<open>-511\<close> and \<open>511\<close>.
\<close>

lemma chunk_assertion:
  assumes "0 < chunk_size"
    and "chunk_size \<le> int32 (int BLOCK_SECTOR_SIZE - c_mod offset (int BLOCK_SECTOR_SIZE))"
  shows "int32 (chunk_size + c_mod offset (int BLOCK_SECTOR_SIZE)) \<le> int BLOCK_SECTOR_SIZE"
proof -
  define m where "m = c_mod offset 512"
  have m: "- 512 < m" "m < 512" using c_mod_range [of offset] by (simp_all add: m_def)
  then have "int32 (512 - m) = 512 - m" by (intro int32_id) simp_all
  with assms have c: "chunk_size \<le> 512 - m" by (simp add: BLOCK_SECTOR_SIZE_def m_def)
  with m assms(1) have "int32 (chunk_size + m) = chunk_size + m" by (intro int32_id) simp_all
  with c show ?thesis by (simp add: BLOCK_SECTOR_SIZE_def m_def)
qed

lemma read_chunk_no_assert:
  assumes "0 < chunk_size"
    and "chunk_size \<le> int32 (int BLOCK_SECTOR_SIZE - c_mod offset (int BLOCK_SECTOR_SIZE))"
  shows "fs_cache_read_offset st sec (c_mod offset (int BLOCK_SECTOR_SIZE)) chunk_size
      \<noteq> Inl Assertion_failed"
  using chunk_assertion [OF assms] by (simp add: fs_cache_read_offset_def)

lemma write_chunk_no_assert:
  assumes "0 < chunk_size"
    and "chunk_size \<le> int32 (int BLOCK_SECTOR_SIZE - c_mod offset (int BLOCK_SECTOR_SIZE))"
  shows "fs_cache_write_offset st sec src (c_mod offset (int BLOCK_SECTOR_SIZE)) chunk_size
      \<noteq> Inl Assertion_failed"
  using chunk_assertion [OF assms] by (simp add: fs_cache_write_offset_def)

lemma read_loop_no_assert:
  "inode_read_loop st inode sz offset bytes_read out \<noteq> Inl Assertion_failed"
proof (induction "nat sz" arbitrary: sz offset bytes_read out rule: less_induct)
  case less
  define sector_ofs where "sector_ofs = c_mod offset (int BLOCK_SECTOR_SIZE)"
  define inode_left where "inode_left = int32 (inode_length st inode - offset)"
  define sector_left where "sector_left = int32 (int BLOCK_SECTOR_SIZE - sector_ofs)"
  define min_left where "min_left = (if inode_left < sector_left then inode_left else sector_left)"
  define chunk_size where "chunk_size = (if sz < min_left then sz else min_left)"
  have step: "inode_read_loop st inode sz offset bytes_read out =
     (if sz > 0 then
        (case byte_to_sector st inode offset of
           Inl f \<Rightarrow> Inl f
         | Inr sector_idx \<Rightarrow>
             if chunk_size \<le> 0 then Inr (bytes_read, out)
             else
               (case (if sector_ofs = 0 \<and> chunk_size = int BLOCK_SECTOR_SIZE
                      then Inr (fs_cache_read st sector_idx)
                      else fs_cache_read_offset st sector_idx sector_ofs chunk_size) of
                  Inl f \<Rightarrow> Inl f
                | Inr data \<Rightarrow>
                    inode_read_loop st inode (int32 (sz - chunk_size))
                      (int32 (offset + chunk_size)) (int32 (bytes_read + chunk_size))
                      (out @ data)))
      else Inr (bytes_read, out))"
    apply (subst inode_read_loop.simps [of st inode sz offset bytes_read out])
    unfolding Let_def chunk_size_def min_left_def sector_left_def inode_left_def sector_ofs_def
    apply (rule refl)
    done
  show ?case
  proof (cases "sz > 0 \<and> \<not> chunk_size \<le> 0")
    case False
    then show ?thesis
      unfolding step using byte_to_sector_no_assert [of st inode offset]
      by (auto split: sum.splits)
  next
    case True
    then have c: "0 < chunk_size" "chunk_size \<le> sz" "chunk_size \<le> sector_left"
      by (simp_all add: chunk_size_def min_left_def split: if_splits)
    from c(1,2) have "int32 (sz - chunk_size) < sz" by (rule int32_decrease)
    with True have dec: "nat (int32 (sz - chunk_size)) < nat sz" by simp
    have ro: "fs_cache_read_offset st sec sector_ofs chunk_size \<noteq> Inl Assertion_failed" for sec
      unfolding sector_ofs_def
      by (rule read_chunk_no_assert) (use c in \<open>simp_all add: sector_left_def sector_ofs_def\<close>)
    show ?thesis
      unfolding step
      using less(1) [OF dec] ro byte_to_sector_no_assert [of st inode offset]
      by (auto split: sum.splits)
  qed
qed

lemma write_loop_no_assert:
  "inode_write_loop st inode src sz offset bytes_written \<noteq> Inl Assertion_failed"
proof (induction "nat sz" arbitrary: st sz offset bytes_written rule: less_induct)
  case less
  define sector_ofs where "sector_ofs = c_mod offset (int BLOCK_SECTOR_SIZE)"
  define inode_left where "inode_left = int32 (inode_length st inode - offset)"
  define sector_left where "sector_left = int32 (int BLOCK_SECTOR_SIZE - sector_ofs)"
  define min_left where "min_left = (if inode_left < sector_left then inode_left else sector_left)"
  define chunk_size where "chunk_size = (if sz < min_left then sz else min_left)"
  have step: "inode_write_loop st inode src sz offset bytes_written =
     (if sz > 0 then
        (case byte_to_sector st inode offset of
           Inl f \<Rightarrow> Inl f
         | Inr sector_idx \<Rightarrow>
             if chunk_size \<le> 0 then Inr (bytes_written, st)
             else
               (case (if sector_ofs = 0 \<and> chunk_size = int BLOCK_SECTOR_SIZE
                      then Inr (fs_cache_write st sector_idx
                             (take BLOCK_SECTOR_SIZE (drop (nat bytes_written) src)))
                      else fs_cache_write_offset st sector_idx
                             (drop (nat bytes_written) src) sector_ofs chunk_size) of
                  Inl f \<Rightarrow> Inl f
                | Inr st1 \<Rightarrow>
                    inode_write_loop st1 inode src (int32 (sz - chunk_size))
                      (int32 (offset + chunk_size)) (int32 (bytes_written + chunk_size))))
      else Inr (bytes_written, st))"
    apply (subst inode_write_loop.simps [of st inode src sz offset bytes_written])
    unfolding Let_def chunk_size_def min_left_def sector_left_def inode_left_def sector_ofs_def
    apply (rule refl)
    done
  show ?case
  proof (cases "sz > 0 \<and> \<not> chunk_size \<le> 0")
    case False
    then show ?thesis
      unfolding step using byte_to_sector_no_assert [of st inode offset]
      by (auto split: sum.splits)
  next
    case True
    then have c: "0 < chunk_size" "chunk_size \<le> sz" "chunk_size \<le> sector_left"
      by (simp_all add: chunk_size_def min_left_def split: if_splits)
    from c(1,2) have "int32 (sz - chunk_size) < sz" by (rule int32_decrease)
    with True have dec: "nat (int32 (sz - chunk_size)) < nat sz" by simp
    have ro: "fs_cache_write_offset st sec buf sector_ofs chunk_size \<noteq> Inl Assertion_failed"
      for sec buf
      unfolding sector_ofs_def
      by (rule write_chunk_no_assert) (use c in \<open>simp_all add: sector_left_def sector_ofs_def\<close>)
    show ?thesis
      unfolding step
      using less(1) [OF dec] ro byte_to_sector_no_assert [of st inode offset]
      by (auto split: sum.splits)
  qed
qed

text \<open>
  Claim C10. No call of \<open>inode_read_at\<close> or \<open>inode_write_at\<close> ends in the failure of
  the assertion \<open>chunk_size + sector_ofs <= BLOCK_SECTOR_SIZE\<close> of the cache entry
  points: the copy loops pass offsets and lengths that satisfy it.
\<close>

theorem copy_loops_pass_assertion:
  "inode_read_at st inode sz offset \<noteq> Inl Assertion_failed \<and>
   inode_write_at st inode src sz offset \<noteq> Some (Inl Assertion_failed)"
  by (auto simp: inode_read_at_def inode_write_at_def read_loop_no_assert
      write_loop_no_assert Let_def split: if_splits Option.bind_splits)

subsection \<open>Sectors and words\<close>

lemma le32_roundtrip: "le32_word (le32_bytes w) = w"
  unfolding le32_bytes_def le32_word_def
  apply (rule bit_word_eqI)
  apply (auto simp: bit_simps)
  subgoal for n
    by (cases "24 \<le> n") (simp_all add: le_add_diff_inverse)
  done

lemma length_le32_bytes: "length (le32_bytes w) = 4"
  by (simp add: le32_bytes_def)

lemma le32_word_zero: "le32_word (replicate n 0) = 0"
  by (induction n) (simp_all add: le32_word_def)

lemma take_drop_concat4:
  "(\<forall>xs \<in> set xss. length xs = 4) \<Longrightarrow> k < length xss \<Longrightarrow>
   take 4 (drop (4 * k) (concat xss)) = xss ! k"
proof (induction xss arbitrary: k)
  case Nil
  then show ?case by simp
next
  case (Cons xs xss)
  show ?case
  proof (cases k)
    case 0
    with Cons.prems show ?thesis by simp
  next
    case (Suc j)
    with Cons.prems have "take 4 (drop (4 * j) (concat xss)) = xss ! j"
      by (intro Cons.IH) auto
    with Suc Cons.prems show ?thesis by simp
  qed
qed

lemma words_roundtrip:
  assumes "length ws = 128"
  shows "words_of_sector (sector_of_words ws) = ws"
proof -
  have "\<And>k. k < 128 \<Longrightarrow> le32_word (take 4 (drop (4 * k) (concat (map le32_bytes ws)))) = ws ! k"
    using assms by (simp add: take_drop_concat4 length_le32_bytes le32_roundtrip)
  then have "words_of_sector (sector_of_words ws) = map (\<lambda>k. ws ! k) [0..<128]"
    by (simp add: words_of_sector_def sector_of_words_def)
  also have "\<dots> = ws"
    using assms map_nth [of ws] by simp
  finally show ?thesis .
qed

lemma words_of_zeros: "words_of_sector zeros = replicate 128 0"
proof -
  have "\<And>k. take 4 (drop (4 * k) zeros) = replicate (min 4 (512 - 4 * k)) (0 :: byte)"
    by (simp add: zeros_def BLOCK_SECTOR_SIZE_def)
  then have "words_of_sector zeros = map (\<lambda>k. 0) [0..<128]"
    by (simp add: words_of_sector_def le32_word_zero)
  then show ?thesis
    by (simp add: map_replicate_const)
qed

lemma length_words_of_sector: "length (words_of_sector bs) = 128"
  by (simp add: words_of_sector_def)

lemma sint32:
  "- (2 ^ 31) \<le> x \<Longrightarrow> x < 2 ^ 31 \<Longrightarrow> sint (word_of_int x :: 32 word) = x"
  by (simp add: sint_sbintrunc' signed_take_bit_int_eq_self)

lemma inode_roundtrip:
  assumes "length (direct_pointer d) = 12" and "length (unused d) = 111"
    and "- (2 ^ 31) \<le> length_d d" and "length_d d < 2 ^ 31"
  shows "inode_disk_of_sector (sector_of_inode_disk d) = d"
proof -
  define ws where "ws = [word_of_int (length_d d), magic d] @ direct_pointer d @
       [indirect_pointer d, doubly_indirect_pointer d, type_d d] @ unused d"
  have len: "length ws = 128" using assms by (simp add: ws_def)
  have s: "sint (word_of_int (length_d d) :: 32 word) = length_d d"
    using assms(3,4) by (rule sint32)
  have "sector_of_inode_disk d = sector_of_words ws"
    by (simp add: sector_of_inode_disk_def ws_def)
  then have e: "inode_disk_of_sector (sector_of_inode_disk d) =
     \<lparr>length_d = sint (ws ! 0), magic = ws ! Suc 0, direct_pointer = take 12 (drop 2 ws),
       indirect_pointer = ws ! 14, doubly_indirect_pointer = ws ! 15, type_d = ws ! 16,
       unused = drop 17 ws\<rparr>"
    by (simp add: inode_disk_of_sector_def words_roundtrip [OF len] Let_def)
  have n0: "ws ! 0 = word_of_int (length_d d)" and n1: "ws ! Suc 0 = magic d"
    by (simp_all add: ws_def)
  have dr: "drop 2 ws = direct_pointer d @
       [indirect_pointer d, doubly_indirect_pointer d, type_d d] @ unused d"
    by (simp add: ws_def)
  have t12: "take 12 (drop 2 ws) = direct_pointer d"
    using assms(1) by (simp add: dr)
  have d14: "drop 14 ws = [indirect_pointer d, doubly_indirect_pointer d, type_d d] @ unused d"
    using assms(1) drop_drop [of 12 2 ws] by (simp add: dr)
  have n14: "ws ! 14 = indirect_pointer d" "ws ! 15 = doubly_indirect_pointer d"
    "ws ! 16 = type_d d"
    using len nth_drop [of 14 ws 0] nth_drop [of 14 ws 1] nth_drop [of 14 ws 2]
    by (simp_all add: d14)
  have d17: "drop 17 ws = unused d"
    using drop_drop [of 3 14 ws] by (simp add: d14)
  show ?thesis
    by (simp add: e n0 n1 s t12 n14 d17)
qed

subsection \<open>An example file system\<close>

text \<open>
  A device of 32 sectors. Sectors 0 and 1 hold the free map and the root directory,
  sector 4 the inode of a file of 1000 bytes whose data is in sectors 2 and 3.
\<close>

definition small_inode :: inode_disk where
  "small_inode = \<lparr>length_d = 1000, magic = INODE_MAGIC,
     direct_pointer = [2, 3, 0, 0, 0, 0, 0, 0, 0, 0, 0, 0], indirect_pointer = 0,
     doubly_indirect_pointer = 0, type_d = 0, unused = replicate 111 0\<rparr>"

definition small_fs :: fs where
  "small_fs = \<lparr>free_map = [True, True, True, True, True] @ replicate 27 False,
     sectors = (\<lambda>s. zeros)(4 := sector_of_inode_disk small_inode)\<rparr>"

definition small_file :: inode where
  "small_file = \<lparr>sector_i = 4, open_cnt = 1, removed = False, deny_write_cnt = 0\<rparr>"

lemma small_inode_on_disk:
  "inode_disk_of_sector (fs_cache_read small_fs (sector_i small_file)) = small_inode"
proof -
  have "inode_disk_of_sector (sector_of_inode_disk small_inode) = small_inode"
    by (rule inode_roundtrip) (simp_all add: small_inode_def)
  then show ?thesis
    by (simp add: fs_cache_read_def small_fs_def small_file_def)
qed

theorem byte_to_sector_addressing_witness:
  "small_inode = inode_disk_of_sector (fs_cache_read small_fs (sector_i small_file)) \<and>
   (0::int) \<le> 600 \<and> 600 < length_d small_inode \<and>
   byte_to_sector small_fs small_file 600 = Inr 3"
proof -
  have d: "small_inode = inode_disk_of_sector (fs_cache_read small_fs (sector_i small_file))"
    by (simp add: small_inode_on_disk)
  have p: "(0::int) \<le> 600" "600 < length_d small_inode"
    by (simp_all add: small_inode_def)
  from byte_to_sector_addressing [OF d p] d p show ?thesis
    by (simp add: small_inode_def)
qed

section \<open>Allocation and release of the sectors of a file\<close>

subsection \<open>The free map\<close>

text \<open>
  A sector is in use when its bit is set. On a formatted device the bitmap has no more
  bits than there are sector numbers, and sector 0 (the inode of the free map) is in use.
\<close>

definition in_use :: "free_map_t \<Rightarrow> block_sector_t \<Rightarrow> bool" where
  "in_use fm s \<longleftrightarrow> unat s < length fm \<and> fm ! unat s"

definition fm_ok :: "free_map_t \<Rightarrow> bool" where
  "fm_ok fm \<longleftrightarrow> length fm \<le> 2 ^ 32 \<and> 0 < length fm \<and> fm ! 0"




lemma free_count_clear:
  "i < length fm \<Longrightarrow> fm ! i \<Longrightarrow> free_count (fm[i := False]) = Suc (free_count fm)"
proof (induction fm arbitrary: i)
  case Nil
  then show ?case by simp
next
  case (Cons b bs)
  then show ?case by (cases i) (auto simp: free_count_def)
qed













subsection \<open>Growth of the index blocks\<close>














subsection \<open>Growth of the whole tree\<close>








subsection \<open>Well-formed inodes\<close>

text \<open>
  \<open>nslots len base n\<close>: how many of the \<open>n\<close> positions from \<open>base\<close> on a file of
  \<open>len\<close> bytes has a sector at. \<open>inode_sectors len\<close>: the number of sectors a file of
  \<open>len\<close> bytes occupies besides its inode: its data sectors, the indirect block, the
  doubly indirect block and the indirect blocks under it.
\<close>

definition nslots :: "int \<Rightarrow> nat \<Rightarrow> nat \<Rightarrow> nat" where
  "nslots len base n =
     length (filter (\<lambda>j. int BLOCK_SECTOR_SIZE * int (base + j) < len) [0..<n])"

definition block_sectors :: "int \<Rightarrow> nat \<Rightarrow> nat" where
  "block_sectors len i =
     (if int BLOCK_SECTOR_SIZE * int (140 + 128 * i) < len then 1 else 0)
     + nslots len (140 + 128 * i) 128"

definition inode_sectors :: "int \<Rightarrow> nat" where
  "inode_sectors len =
     nslots len 0 12
     + ((if 12 * 512 < len then 1 else 0) + nslots len 12 128)
     + ((if (12 + 128) * 512 < len then 1 else 0)
        + sum_list (map (block_sectors len) [0..<128]))"

text \<open>
  In an array of pointers of a well-formed inode of length \<open>L\<close>, the slot for position
  \<open>base + j\<close> is allocated exactly when the file has a sector there.
\<close>

definition slots_ok :: "int \<Rightarrow> nat \<Rightarrow> block_sector_t list \<Rightarrow> bool" where
  "slots_ok L base buf \<longleftrightarrow>
     (\<forall>j < length buf. (buf ! j \<noteq> 0) = (int BLOCK_SECTOR_SIZE * int (base + j) < L))"

definition nonzero :: "block_sector_t list \<Rightarrow> block_sector_t list" where
  "nonzero buf = filter (\<lambda>s. s \<noteq> 0) buf"

text \<open>The sectors of the tree of an inode, in the order in which a resize to 0 releases them.\<close>

definition block_tree :: "fs \<Rightarrow> block_sector_t \<Rightarrow> block_sector_t list" where
  "block_tree st ib = (if ib = 0 then [] else nonzero (words_of_sector (sectors st ib)) @ [ib])"

definition tree_sectors :: "fs \<Rightarrow> inode_disk \<Rightarrow> block_sector_t list" where
  "tree_sectors st d =
     nonzero (direct_pointer d) @ block_tree st (indirect_pointer d) @
     (if doubly_indirect_pointer d = 0 then []
      else concat (map (block_tree st)
             (words_of_sector (sectors st (doubly_indirect_pointer d))))
           @ [doubly_indirect_pointer d])"

definition wf_inode :: "fs \<Rightarrow> inode_disk \<Rightarrow> bool" where
  "wf_inode st d \<longleftrightarrow>
     fm_ok (free_map st) \<and> length (direct_pointer d) = 12 \<and>
     slots_ok (length_d d) 0 (direct_pointer d) \<and>
     ((indirect_pointer d \<noteq> 0) = (12 * 512 < length_d d)) \<and>
     (indirect_pointer d \<noteq> 0 \<longrightarrow>
        slots_ok (length_d d) 12 (words_of_sector (sectors st (indirect_pointer d)))) \<and>
     ((doubly_indirect_pointer d \<noteq> 0) = ((12 + 128) * 512 < length_d d)) \<and>
     (doubly_indirect_pointer d \<noteq> 0 \<longrightarrow>
        (\<forall>i < 128.
           (words_of_sector (sectors st (doubly_indirect_pointer d)) ! i \<noteq> 0)
             = (int BLOCK_SECTOR_SIZE * int (140 + 128 * i) < length_d d) \<and>
           (words_of_sector (sectors st (doubly_indirect_pointer d)) ! i \<noteq> 0 \<longrightarrow>
              slots_ok (length_d d) (140 + 128 * i)
                (words_of_sector (sectors st
                   (words_of_sector (sectors st (doubly_indirect_pointer d)) ! i)))))) \<and>
     distinct (tree_sectors st d) \<and>
     (\<forall>s \<in> set (tree_sectors st d). in_use (free_map st) s)"




lemma nslots_none:
  assumes "len \<le> int BLOCK_SECTOR_SIZE * int base"
  shows "nslots len base n = 0"
proof -
  have "\<And>j. \<not> int BLOCK_SECTOR_SIZE * int (base + j) < len"
  proof
    fix j assume a: "int BLOCK_SECTOR_SIZE * int (base + j) < len"
    have "int BLOCK_SECTOR_SIZE * int base \<le> int BLOCK_SECTOR_SIZE * int (base + j)"
      by (simp add: BLOCK_SECTOR_SIZE_def)
    with a assms show False by linarith
  qed
  then show ?thesis by (simp add: nslots_def)
qed







lemma block_sectors_none:
  "len \<le> int BLOCK_SECTOR_SIZE * int (140 + 128 * i) \<Longrightarrow> block_sectors len i = 0"
  by (simp add: block_sectors_def nslots_none)

lemma block_sectors_small:
  assumes "len \<le> (12 + 128) * 512"
  shows "sum_list (map (block_sectors len) [0..<128]) = 0"
proof -
  have "block_sectors len i = 0" for i
  proof (rule block_sectors_none)
    have "(12 + 128) * 512 \<le> int BLOCK_SECTOR_SIZE * int (140 + 128 * i)"
      by (simp add: BLOCK_SECTOR_SIZE_def)
    with assms show "len \<le> int BLOCK_SECTOR_SIZE * int (140 + 128 * i)" by linarith
  qed
  then show ?thesis by simp
qed




subsection \<open>Growing an inode\<close>




lemma inode_sectors_zero: "inode_sectors 0 = 0"
  by (simp add: inode_sectors_def nslots_none block_sectors_small)






lemma fm_ok_small_fs: "fm_ok (free_map small_fs)"
  by (simp add: fm_ok_def small_fs_def)

lemma free_count_small_fs: "free_count (free_map small_fs) = 27"
  by (simp add: free_count_def small_fs_def)

lemma wf_small_inode: "wf_inode small_fs small_inode"
proof -
  have u: "[0..<12] = [0, 1, 2, 3, 4, 5, 6, 7, 8, 9, 10, 11 :: nat]"
    by (simp add: upt_rec)
  have "\<forall>j \<in> set [0..<12]. ([2, 3, 0, 0, 0, 0, 0, 0, 0, 0, 0, 0 :: block_sector_t] ! j \<noteq> 0)
      = (int BLOCK_SECTOR_SIZE * int (0 + j) < 1000)"
    unfolding u by (simp add: BLOCK_SECTOR_SIZE_def)
  then have "slots_ok 1000 0 [2, 3, 0, 0, 0, 0, 0, 0, 0, 0, 0, 0]"
    unfolding slots_ok_def by simp
  moreover have "in_use (free_map small_fs) 2" "in_use (free_map small_fs) 3"
    by (simp_all add: in_use_def small_fs_def)
  ultimately show ?thesis
    using fm_ok_small_fs
    by (simp add: wf_inode_def small_inode_def tree_sectors_def nonzero_def block_tree_def)
qed




section \<open>Releasing the sectors of a file\<close>

subsection \<open>Releases in the free map\<close>

definition release_all :: "free_map_t \<Rightarrow> block_sector_t list \<Rightarrow> free_map_t" where
  "release_all fm xs = foldl free_map_release fm xs"

lemma release_all_Nil: "release_all fm [] = fm"
  by (simp add: release_all_def)

lemma release_all_Cons: "release_all fm (x # xs) = release_all (free_map_release fm x) xs"
  by (simp add: release_all_def)

lemma release_all_append: "release_all fm (xs @ ys) = release_all (release_all fm xs) ys"
  by (simp add: release_all_def)

lemma release_all_snoc: "release_all fm (xs @ [x]) = free_map_release (release_all fm xs) x"
  by (simp add: release_all_def)

lemma in_use_release:
  "in_use (free_map_release fm x) s \<longleftrightarrow> in_use fm s \<and> s \<noteq> x"
proof (cases "s = x")
  case True
  then show ?thesis by (auto simp: in_use_def free_map_release_def)
next
  case False
  then have "unat s \<noteq> unat x" by (simp add: word_unat_eq_iff)
  with False show ?thesis by (simp add: in_use_def free_map_release_def)
qed

lemma free_count_release:
  "in_use fm x \<Longrightarrow> free_count (free_map_release fm x) = Suc (free_count fm)"
  by (simp add: in_use_def free_map_release_def free_count_clear)

lemma fm_ok_release: "fm_ok fm \<Longrightarrow> x \<noteq> 0 \<Longrightarrow> fm_ok (free_map_release fm x)"
proof -
  assume ok: "fm_ok fm" and nz: "x \<noteq> 0"
  from nz have "unat x \<noteq> 0" by (simp add: unat_eq_zero)
  with ok show ?thesis by (simp add: fm_ok_def free_map_release_def)
qed

lemma release_all_in_use:
  "in_use (release_all fm xs) s \<longleftrightarrow> in_use fm s \<and> s \<notin> set xs"
  by (induction xs arbitrary: fm) (auto simp: release_all_Nil release_all_Cons in_use_release)

lemma release_all_count:
  "distinct xs \<Longrightarrow> (\<forall>s \<in> set xs. in_use fm s) \<Longrightarrow>
   free_count (release_all fm xs) = free_count fm + length xs"
proof (induction xs arbitrary: fm)
  case Nil
  then show ?case by (simp add: release_all_Nil)
next
  case (Cons x xs)
  have "\<forall>s \<in> set xs. in_use (free_map_release fm x) s"
    using Cons.prems by (auto simp: in_use_release)
  with Cons.IH [of "free_map_release fm x"] Cons.prems
  show ?case by (simp add: release_all_Cons free_count_release)
qed

subsection \<open>Shrinking to nothing\<close>

lemma resize_slots_release:
  assumes none: "len \<le> int BLOCK_SECTOR_SIZE * int base" and n: "n \<le> length buf"
    and i: "i \<le> n"
  shows "resize_slots len base n i st buf =
     (True, st\<lparr>free_map := release_all (free_map st) (nonzero (take (n - i) (drop i buf)))\<rparr>,
      take i buf @ replicate (n - i) 0 @ drop n buf)"
  using n i
proof (induction "n - i" arbitrary: i st buf)
  case 0
  then have "i = n" by simp
  then show ?case
    by (simp add: resize_slots.simps [of len base n n] nonzero_def release_all_Nil)
next
  case (Suc k)
  then have lt: "i < n" by simp
  from Suc.hyps have k: "k = n - Suc i" by simp
  from lt Suc.prems have ib: "i < length buf" by simp
  have no: "len \<le> int BLOCK_SECTOR_SIZE * int (base + i)"
  proof -
    have "int BLOCK_SECTOR_SIZE * int base \<le> int BLOCK_SECTOR_SIZE * int (base + i)"
      by (simp add: BLOCK_SECTOR_SIZE_def)
    with none show ?thesis by linarith
  qed
  have ni: "n - i = Suc (n - Suc i)" using lt by simp
  have td: "take (n - i) (drop i buf) = buf ! i # take (n - Suc i) (drop (Suc i) buf)"
    unfolding ni using ib by (simp add: Cons_nth_drop_Suc [symmetric])
  have rep: "replicate (n - i) (0 :: block_sector_t) = 0 # replicate (n - Suc i) 0"
    unfolding ni by simp
  show ?case
  proof (cases "buf ! i = 0")
    case True
    have eq: "resize_slots len base n i st buf = resize_slots len base n (Suc i) st buf"
      using lt True no by (subst resize_slots.simps) (simp add: Let_def)
    have t: "take (Suc i) buf = take i buf @ [0]"
      using ib True by (simp add: take_Suc_conv_app_nth)
    from Suc.hyps(1) [OF k Suc.prems(1), of st] lt
    show ?thesis
      unfolding eq by (simp add: td True nonzero_def t rep)
  next
    case False
    define st1 where "st1 = st\<lparr>free_map := free_map_release (free_map st) (buf ! i)\<rparr>"
    define buf1 where "buf1 = buf[i := 0]"
    have eq: "resize_slots len base n i st buf = resize_slots len base n (Suc i) st1 buf1"
      using lt False no ib
      by (subst resize_slots.simps) (simp add: Let_def st1_def buf1_def)
    have l1: "n \<le> length buf1" using Suc.prems(1) by (simp add: buf1_def)
    have t: "take (Suc i) buf1 = take i buf @ [0]"
      using ib by (simp add: buf1_def take_Suc_conv_app_nth)
    have d1: "drop (Suc i) buf1 = drop (Suc i) buf" by (simp add: buf1_def)
    have d2: "drop n buf1 = drop n buf" using lt by (simp add: buf1_def)
    from Suc.hyps(1) [OF k l1, of st1] lt
    show ?thesis
      unfolding eq
      by (simp add: td False nonzero_def t rep d1 d2 st1_def release_all_Cons)
  qed
qed

lemma block_tree_free_map: "block_tree (st\<lparr>free_map := fm\<rparr>) ib = block_tree st ib"
  by (simp add: block_tree_def)

lemma block_tree_free_map_fun: "block_tree (st\<lparr>free_map := fm\<rparr>) = block_tree st"
  by (rule ext) (simp add: block_tree_def)

lemma block_tree_zero: "block_tree st 0 = []"
  by (simp add: block_tree_def)

lemma concat_block_tree_zeros:
  assumes "\<forall>x \<in> set xs. x = 0"
  shows "concat (map (block_tree st) xs) = []"
  using assms by (induction xs) (simp_all add: block_tree_zero)

lemma resize_doubly_loop_release:
  assumes none: "len \<le> (12 + 128) * 512" and lo: "length ob = 128" and i: "i \<le> 128"
    and prefix: "\<forall>k m. i \<le> k \<and> k \<le> m \<and> m < 128 \<and> ob ! k = 0 \<longrightarrow> ob ! m = 0"
  shows "\<exists>ob'. resize_doubly_loop len i st ob =
     (True, st\<lparr>free_map := release_all (free_map st)
                 (concat (map (block_tree st) (drop i ob)))\<rparr>, ob')"
  using lo i prefix
proof (induction "128 - i" arbitrary: i st ob)
  case 0
  then have "i = 128" by simp
  with 0 show ?case
    by (simp add: resize_doubly_loop.simps [of len 128] release_all_Nil)
next
  case (Suc n)
  then have lt: "i < 128" by simp
  from Suc.hyps have n: "n = 128 - Suc i" by simp
  from lt Suc.prems(1) have il: "i < length ob" by simp
  have c: "len \<le> int ((12 + 128 + 128 * i) * BLOCK_SECTOR_SIZE)"
    using none by (simp add: BLOCK_SECTOR_SIZE_def)
  have c': "len \<le> int BLOCK_SECTOR_SIZE * int (12 + 128 + 128 * i)"
    using none by (simp add: BLOCK_SECTOR_SIZE_def)
  have dr: "drop i ob = ob ! i # drop (Suc i) ob"
    using il by (simp add: Cons_nth_drop_Suc)
  show ?case
  proof (cases "ob ! i = 0")
    case True
    have "\<forall>x \<in> set (drop i ob). x = 0"
    proof
      fix x assume "x \<in> set (drop i ob)"
      then obtain j where j: "j < length (drop i ob)" "x = drop i ob ! j"
        by (auto simp: in_set_conv_nth)
      with Suc.prems(1) have "i + j < 128" "x = ob ! (i + j)" by simp_all
      with Suc.prems(3) True show "x = 0" by (metis le_add1 le_refl)
    qed
    then have e: "concat (map (block_tree st) (drop i ob)) = []"
      by (rule concat_block_tree_zeros)
    have "resize_doubly_loop len i st ob = (True, st, ob)"
      using lt True c by (subst resize_doubly_loop.simps) simp
    then show ?thesis unfolding e by (simp add: release_all_Nil)
  next
    case False
    define inside where "inside = words_of_sector (sectors st (ob ! i))"
    have li: "128 \<le> length inside" by (simp add: inside_def length_words_of_sector)
    have r: "resize_slots len (12 + 128 + 128 * i) 128 0 st inside =
        (True, st\<lparr>free_map := release_all (free_map st) (nonzero inside)\<rparr>,
         replicate 128 0 @ drop 128 inside)"
      using resize_slots_release [OF c' li, of 0 st]
      by (simp add: inside_def length_words_of_sector)
    define st3 where "st3 = st\<lparr>free_map := release_all (free_map st) (block_tree st (ob ! i))\<rparr>"
    define ob1 where "ob1 = ob[i := 0]"
    have eq: "resize_doubly_loop len i st ob = resize_doubly_loop len (Suc i) st3 ob1"
      using lt False c r
      by (subst resize_doubly_loop.simps)
        (simp add: fs_cache_read_def inside_def [symmetric] st3_def ob1_def block_tree_def
          release_all_snoc)
    have l1: "length ob1 = 128" using Suc.prems(1) by (simp add: ob1_def)
    have p1: "\<forall>k m. Suc i \<le> k \<and> k \<le> m \<and> m < 128 \<and> ob1 ! k = 0 \<longrightarrow> ob1 ! m = 0"
    proof (intro allI impI)
      fix k m
      assume a: "Suc i \<le> k \<and> k \<le> m \<and> m < 128 \<and> ob1 ! k = 0"
      then have ki: "k \<noteq> i" by arith
      from a have "ob1 ! k = 0" by simp
      with ki have "ob ! k = 0" by (simp add: ob1_def)
      with a have "i \<le> k \<and> k \<le> m \<and> m < 128 \<and> ob ! k = 0" by simp
      with Suc.prems(3) have "ob ! m = 0" by blast
      then show "ob1 ! m = 0" by (cases "m = i") (simp_all add: ob1_def il)
    qed
    have d1: "drop (Suc i) ob1 = drop (Suc i) ob" by (simp add: ob1_def)
    have bt: "block_tree st3 = block_tree st"
      by (simp add: st3_def block_tree_free_map_fun)
    from Suc.hyps(1) [OF n l1 _ p1, of st3] lt
    obtain ob' where "resize_doubly_loop len (Suc i) st3 ob1 =
        (True, st3\<lparr>free_map := release_all (free_map st3)
                 (concat (map (block_tree st3) (drop (Suc i) ob1)))\<rparr>, ob')"
      by auto
    then show ?thesis
      unfolding eq bt d1 by (simp add: dr st3_def release_all_append)
  qed
qed

lemma resize_indirect_release:
  assumes none: "len \<le> 12 * 512" and nz: "indirect_pointer d \<noteq> 0"
  shows "resize_indirect st d len =
     (True, st\<lparr>free_map := release_all (free_map st) (block_tree st (indirect_pointer d))\<rparr>,
      d\<lparr>indirect_pointer := 0\<rparr>)"
proof -
  define inside where "inside = words_of_sector (sectors st (indirect_pointer d))"
  have li: "128 \<le> length inside" by (simp add: inside_def length_words_of_sector)
  have c': "len \<le> int BLOCK_SECTOR_SIZE * int 12"
    using none by (simp add: BLOCK_SECTOR_SIZE_def)
  have r: "resize_slots len 12 128 0 st inside =
        (True, st\<lparr>free_map := release_all (free_map st) (nonzero inside)\<rparr>,
         replicate 128 0 @ drop 128 inside)"
    using resize_slots_release [OF c' li, of 0 st]
    by (simp add: inside_def length_words_of_sector)
  show ?thesis
    using nz none r
    by (simp add: resize_indirect_def fs_cache_read_def inside_def [symmetric] block_tree_def
        release_all_snoc)
qed

lemma resize_doubly_indirect_release:
  assumes none: "len \<le> (12 + 128) * 512" and nz: "doubly_indirect_pointer d \<noteq> 0"
    and prefix: "\<forall>k m. k \<le> m \<and> m < 128 \<and>
        words_of_sector (sectors st (doubly_indirect_pointer d)) ! k = 0 \<longrightarrow>
        words_of_sector (sectors st (doubly_indirect_pointer d)) ! m = 0"
  shows "resize_doubly_indirect st d len =
     (True, st\<lparr>free_map := release_all (free_map st)
        (concat (map (block_tree st)
           (words_of_sector (sectors st (doubly_indirect_pointer d))))
         @ [doubly_indirect_pointer d])\<rparr>,
      d\<lparr>doubly_indirect_pointer := 0\<rparr>)"
proof -
  define ob where "ob = words_of_sector (sectors st (doubly_indirect_pointer d))"
  have lo: "length ob = 128" by (simp add: ob_def length_words_of_sector)
  have p: "\<forall>k m. 0 \<le> k \<and> k \<le> m \<and> m < 128 \<and> ob ! k = 0 \<longrightarrow> ob ! m = 0"
    using prefix by (simp add: ob_def)
  from resize_doubly_loop_release [OF none lo _ p, of st]
  obtain ob' where r: "resize_doubly_loop len 0 st ob =
     (True, st\<lparr>free_map := release_all (free_map st) (concat (map (block_tree st) ob))\<rparr>, ob')"
    by auto
  have c: "len \<le> int ((12 + 128) * BLOCK_SECTOR_SIZE)"
    using none by (simp add: BLOCK_SECTOR_SIZE_def)
  show ?thesis
    using nz c r
    by (simp add: resize_doubly_indirect_def fs_cache_read_def ob_def [symmetric]
        release_all_snoc)
qed

lemma inode_resize_pass_zero:
  assumes ld: "length (direct_pointer d) = 12"
    and ip: "indirect_pointer d = 0 \<longrightarrow> doubly_indirect_pointer d = 0"
    and prefix: "doubly_indirect_pointer d \<noteq> 0 \<longrightarrow> (\<forall>k m. k \<le> m \<and> m < 128 \<and>
        words_of_sector (sectors st (doubly_indirect_pointer d)) ! k = 0 \<longrightarrow>
        words_of_sector (sectors st (doubly_indirect_pointer d)) ! m = 0)"
    and len: "len \<le> 0"
  shows "inode_resize_pass st d len =
     (True, st\<lparr>free_map := release_all (free_map st) (tree_sectors st d)\<rparr>,
      d\<lparr>length_d := len, direct_pointer := replicate 12 0, indirect_pointer := 0,
        doubly_indirect_pointer := 0\<rparr>)"
proof -
  define st1 where "st1 = st\<lparr>free_map := release_all (free_map st) (nonzero (direct_pointer d))\<rparr>"
  define d1 where "d1 = d\<lparr>direct_pointer := replicate 12 0\<rparr>"
  have c0: "len \<le> int BLOCK_SECTOR_SIZE * int 0" using len by simp
  have l12: "12 \<le> length (direct_pointer d)" using ld by simp
  have rd: "resize_direct st d len = (True, st1, d1)"
    using resize_slots_release [OF c0 l12, of 0 st] ld
    by (simp add: resize_direct_def st1_def d1_def)
  have s1: "sectors st1 = sectors st" by (simp add: st1_def)
  have bt: "block_tree st1 = block_tree st"
    by (simp add: st1_def block_tree_free_map_fun)
  have c1: "len \<le> 12 * 512" and c2: "len \<le> (12 + 128) * 512"
    and c1': "len \<le> int (12 * BLOCK_SECTOR_SIZE)"
    and c2': "len \<le> int ((12 + 128) * BLOCK_SECTOR_SIZE)"
    using len by (simp_all add: BLOCK_SECTOR_SIZE_def)
  show ?thesis
  proof (cases "indirect_pointer d = 0")
    case True
    with ip have dz: "doubly_indirect_pointer d = 0" by simp
    have e: "d\<lparr>length_d := len, direct_pointer := replicate 12 0, indirect_pointer := 0,
        doubly_indirect_pointer := 0\<rparr> = d1\<lparr>length_d := len\<rparr>"
      using True dz by (simp add: d1_def)
    show ?thesis
      unfolding e using rd True c1'
      by (simp add: inode_resize_pass_def d1_def st1_def tree_sectors_def dz block_tree_zero)
  next
    case False
    define st2 where "st2 = st1\<lparr>free_map := release_all (free_map st1)
        (block_tree st (indirect_pointer d))\<rparr>"
    define d2 where "d2 = d1\<lparr>indirect_pointer := 0\<rparr>"
    have nz1: "indirect_pointer d1 \<noteq> 0" using False by (simp add: d1_def)
    have ri: "resize_indirect st1 d1 len = (True, st2, d2)"
      using resize_indirect_release [OF c1 nz1, of st1]
      by (simp add: st2_def d2_def bt) (simp add: d1_def)
    have s2: "sectors st2 = sectors st" by (simp add: st2_def s1)
    have bt2: "block_tree st2 = block_tree st"
      by (simp add: st2_def st1_def block_tree_free_map_fun)
    show ?thesis
    proof (cases "doubly_indirect_pointer d = 0")
      case True
      have e: "d\<lparr>length_d := len, direct_pointer := replicate 12 0, indirect_pointer := 0,
        doubly_indirect_pointer := 0\<rparr> = d2\<lparr>length_d := len\<rparr>"
        using True by (simp add: d1_def d2_def)
      have t: "tree_sectors st d = nonzero (direct_pointer d) @ block_tree st (indirect_pointer d)"
        using True by (simp add: tree_sectors_def)
      have dz2: "doubly_indirect_pointer d2 = 0" using True by (simp add: d1_def d2_def)
      have f: "st2 = st\<lparr>free_map := release_all (free_map st) (tree_sectors st d)\<rparr>"
        by (simp add: t st2_def st1_def release_all_append)
      show ?thesis
        unfolding e f [symmetric] using rd ri nz1 dz2 c2'
        by (simp add: inode_resize_pass_def)
    next
      case nzd: False
      have nz2: "doubly_indirect_pointer d2 \<noteq> 0" using nzd by (simp add: d1_def d2_def)
      have dd: "doubly_indirect_pointer d2 = doubly_indirect_pointer d"
        by (simp add: d1_def d2_def)
      have p2: "\<forall>k m. k \<le> m \<and> m < 128 \<and>
        words_of_sector (sectors st2 (doubly_indirect_pointer d2)) ! k = 0 \<longrightarrow>
        words_of_sector (sectors st2 (doubly_indirect_pointer d2)) ! m = 0"
        unfolding s2 dd using prefix nzd by blast
      define st3 where "st3 = st2\<lparr>free_map := release_all (free_map st2)
        (concat (map (block_tree st)
           (words_of_sector (sectors st (doubly_indirect_pointer d))))
         @ [doubly_indirect_pointer d])\<rparr>"
      have rdi: "resize_doubly_indirect st2 d2 len = (True, st3, d2\<lparr>doubly_indirect_pointer := 0\<rparr>)"
        using resize_doubly_indirect_release [OF c2 nz2 p2]
        unfolding bt2 s2 dd by (simp add: st3_def)
      have e: "d\<lparr>length_d := len, direct_pointer := replicate 12 0, indirect_pointer := 0,
        doubly_indirect_pointer := 0\<rparr> = d2\<lparr>doubly_indirect_pointer := 0, length_d := len\<rparr>"
        by (simp add: d1_def d2_def)
      have t: "tree_sectors st d = nonzero (direct_pointer d) @ block_tree st (indirect_pointer d)
          @ (concat (map (block_tree st)
           (words_of_sector (sectors st (doubly_indirect_pointer d))))
         @ [doubly_indirect_pointer d])"
        using nzd by (simp add: tree_sectors_def)
      have f: "st3 = st\<lparr>free_map := release_all (free_map st) (tree_sectors st d)\<rparr>"
        unfolding t by (simp add: st3_def st2_def st1_def release_all_append)
      show ?thesis
        unfolding e f [symmetric] using rd ri rdi nz1 nz2
        by (simp add: inode_resize_pass_def)
    qed
  qed
qed

lemma inode_resize_zero:
  assumes ld: "length (direct_pointer d) = 12"
    and ip: "indirect_pointer d = 0 \<longrightarrow> doubly_indirect_pointer d = 0"
    and prefix: "doubly_indirect_pointer d \<noteq> 0 \<longrightarrow> (\<forall>k m. k \<le> m \<and> m < 128 \<and>
        words_of_sector (sectors st (doubly_indirect_pointer d)) ! k = 0 \<longrightarrow>
        words_of_sector (sectors st (doubly_indirect_pointer d)) ! m = 0)"
    and len: "len \<le> 0"
  shows "inode_resize st d len =
     Some (True, st\<lparr>free_map := release_all (free_map st) (tree_sectors st d)\<rparr>,
      d\<lparr>length_d := len, direct_pointer := replicate 12 0, indirect_pointer := 0,
        doubly_indirect_pointer := 0\<rparr>)"
  by (subst inode_resize.simps) (simp add: inode_resize_pass_zero [OF assms])

lemma length_nonzero_slots:
  assumes ok: "slots_ok L base buf"
  shows "length (nonzero buf) = nslots L base (length buf)"
proof -
  have "nonzero buf = filter (\<lambda>s. s \<noteq> 0) (map ((!) buf) [0..<length buf])"
    by (simp add: nonzero_def map_nth)
  then have "length (nonzero buf) = length (filter (\<lambda>j. buf ! j \<noteq> 0) [0..<length buf])"
    by (simp add: filter_map comp_def)
  also have "filter (\<lambda>j. buf ! j \<noteq> 0) [0..<length buf]
      = filter (\<lambda>j. int BLOCK_SECTOR_SIZE * int (base + j) < L) [0..<length buf]"
    using ok by (intro filter_cong) (auto simp: slots_ok_def)
  finally show ?thesis by (simp add: nslots_def)
qed

lemma tree_sectors_length:
  assumes wf: "wf_inode st d"
  shows "length (tree_sectors st d) = inode_sectors (length_d d)"
proof -
  define L where "L = length_d d"
  define ip where "ip = indirect_pointer d"
  define dp where "dp = doubly_indirect_pointer d"
  define ob where "ob = words_of_sector (sectors st dp)"
  have ld: "length (direct_pointer d) = 12" and sd: "slots_ok L 0 (direct_pointer d)"
    and ipL: "(ip \<noteq> 0) = (12 * 512 < L)"
    and si: "ip \<noteq> 0 \<longrightarrow> slots_ok L 12 (words_of_sector (sectors st ip))"
    and dpL: "(dp \<noteq> 0) = ((12 + 128) * 512 < L)"
    and sdd: "dp \<noteq> 0 \<longrightarrow> (\<forall>i < 128.
           (ob ! i \<noteq> 0) = (int BLOCK_SECTOR_SIZE * int (140 + 128 * i) < L) \<and>
           (ob ! i \<noteq> 0 \<longrightarrow> slots_ok L (140 + 128 * i) (words_of_sector (sectors st (ob ! i)))))"
    using wf by (simp_all add: wf_inode_def L_def ip_def dp_def ob_def)
  have a: "length (nonzero (direct_pointer d)) = nslots L 0 12"
    using length_nonzero_slots [OF sd] ld by simp
  have b: "length (block_tree st ip) = (if 12 * 512 < L then 1 else 0) + nslots L 12 128"
  proof (cases "ip = 0")
    case True
    with ipL have "L \<le> int BLOCK_SECTOR_SIZE * int 12" by (simp add: BLOCK_SECTOR_SIZE_def)
    then have "nslots L 12 128 = 0" by (rule nslots_none)
    with True ipL show ?thesis by (simp add: block_tree_zero)
  next
    case False
    with si have "slots_ok L 12 (words_of_sector (sectors st ip))" by simp
    from length_nonzero_slots [OF this] False ipL show ?thesis
      by (simp add: block_tree_def length_words_of_sector)
  qed
  have c: "length (if dp = 0 then [] else concat (map (block_tree st) ob) @ [dp])
      = (if (12 + 128) * 512 < L then 1 else 0) + sum_list (map (block_sectors L) [0..<128])"
  proof (cases "dp = 0")
    case True
    with dpL have "L \<le> (12 + 128) * 512" by simp
    then have "sum_list (map (block_sectors L) [0..<128]) = 0" by (rule block_sectors_small)
    with True dpL show ?thesis by simp
  next
    case False
    have lo: "length ob = 128" by (simp add: ob_def length_words_of_sector)
    have each: "length (block_tree st (ob ! i)) = block_sectors L i" if i: "i < 128" for i
    proof (cases "ob ! i = 0")
      case True
      with sdd False i have "L \<le> int BLOCK_SECTOR_SIZE * int (140 + 128 * i)" by auto
      then have "block_sectors L i = 0" by (rule block_sectors_none)
      with True show ?thesis by (simp add: block_tree_zero)
    next
      case nz: False
      with sdd False i have s: "slots_ok L (140 + 128 * i) (words_of_sector (sectors st (ob ! i)))"
        and lt: "int BLOCK_SECTOR_SIZE * int (140 + 128 * i) < L" by auto
      from length_nonzero_slots [OF s] nz lt show ?thesis
        by (simp add: block_tree_def block_sectors_def length_words_of_sector)
    qed
    have "ob = map ((!) ob) [0..<128]" using lo map_nth [of ob] by simp
    then have "map (block_tree st) ob = map (\<lambda>i. block_tree st (ob ! i)) [0..<128]"
      by (metis (no_types, lifting) map_map comp_def map_eq_conv)
    then have "length (concat (map (block_tree st) ob))
        = sum_list (map (\<lambda>i. length (block_tree st (ob ! i))) [0..<128])"
      by (simp add: length_concat comp_def)
    also have "\<dots> = sum_list (map (block_sectors L) [0..<128])"
      using each by (intro arg_cong [where f = sum_list] map_cong) simp_all
    finally show ?thesis using False dpL by simp
  qed
  define tl where "tl = (if dp = 0 then [] else concat (map (block_tree st) ob) @ [dp])"
  have t: "tree_sectors st d = nonzero (direct_pointer d) @ block_tree st ip @ tl"
    by (simp add: tree_sectors_def ip_def dp_def ob_def tl_def)
  have "length (tree_sectors st d) = nslots L 0 12
      + ((if 12 * 512 < L then 1 else 0) + nslots L 12 128)
      + ((if (12 + 128) * 512 < L then 1 else 0)
         + sum_list (map (block_sectors L) [0..<128]))"
    unfolding t using a b c [folded tl_def] by simp
  then show ?thesis by (simp add: inode_sectors_def L_def)
qed

lemma wf_prefix:
  assumes wf: "wf_inode st d"
  shows "length (direct_pointer d) = 12"
    and "indirect_pointer d = 0 \<longrightarrow> doubly_indirect_pointer d = 0"
    and "doubly_indirect_pointer d \<noteq> 0 \<longrightarrow> (\<forall>k m. k \<le> m \<and> m < 128 \<and>
        words_of_sector (sectors st (doubly_indirect_pointer d)) ! k = 0 \<longrightarrow>
        words_of_sector (sectors st (doubly_indirect_pointer d)) ! m = 0)"
proof -
  define L where "L = length_d d"
  define dp where "dp = doubly_indirect_pointer d"
  define ob where "ob = words_of_sector (sectors st dp)"
  have ld: "length (direct_pointer d) = 12"
    and ipL: "(indirect_pointer d \<noteq> 0) = (12 * 512 < L)"
    and dpL: "(dp \<noteq> 0) = ((12 + 128) * 512 < L)"
    and sdd: "dp \<noteq> 0 \<longrightarrow> (\<forall>i < 128.
           (ob ! i \<noteq> 0) = (int BLOCK_SECTOR_SIZE * int (140 + 128 * i) < L))"
    using wf by (simp_all add: wf_inode_def L_def dp_def ob_def)
  show "length (direct_pointer d) = 12" by (rule ld)
  show "indirect_pointer d = 0 \<longrightarrow> doubly_indirect_pointer d = 0"
    using ipL dpL by (auto simp: dp_def)
  have "\<forall>k m. k \<le> m \<and> m < 128 \<and> ob ! k = 0 \<longrightarrow> ob ! m = 0" if nz: "dp \<noteq> 0"
  proof (intro allI impI)
    fix k m
    assume a: "k \<le> m \<and> m < 128 \<and> ob ! k = 0"
    then have k0: "ob ! k = 0" and km: "k \<le> m" and m: "m < 128" by simp_all
    from km m have k: "k < 128" by simp
    from sdd nz k k0 have "\<not> int BLOCK_SECTOR_SIZE * int (140 + 128 * k) < L" by auto
    with km have "\<not> int BLOCK_SECTOR_SIZE * int (140 + 128 * m) < L"
      by (simp add: BLOCK_SECTOR_SIZE_def)
    with sdd nz m show "ob ! m = 0" by auto
  qed
  then show "doubly_indirect_pointer d \<noteq> 0 \<longrightarrow> (\<forall>k m. k \<le> m \<and> m < 128 \<and>
        words_of_sector (sectors st (doubly_indirect_pointer d)) ! k = 0 \<longrightarrow>
        words_of_sector (sectors st (doubly_indirect_pointer d)) ! m = 0)"
    unfolding ob_def dp_def by blast
qed

subsection \<open>Removing an open file\<close>

lemma byte_to_sector_same_sector:
  "sector_i a = sector_i b \<Longrightarrow> byte_to_sector st a pos = byte_to_sector st b pos"
  by (simp add: byte_to_sector_def)

lemma inode_length_same_sector:
  "sector_i a = sector_i b \<Longrightarrow> inode_length st a = inode_length st b"
  by (simp add: inode_length_def)

lemma inode_read_loop_same_sector:
  assumes same: "sector_i a = sector_i b"
  shows "inode_read_loop st a sz offset bytes_read out = inode_read_loop st b sz offset bytes_read out"
proof (induction "nat sz" arbitrary: sz offset bytes_read out rule: less_induct)
  case less
  note bs = byte_to_sector_same_sector [OF same] and il = inode_length_same_sector [OF same]
  define sector_ofs where "sector_ofs = c_mod offset (int BLOCK_SECTOR_SIZE)"
  define inode_left where "inode_left = int32 (inode_length st b - offset)"
  define sector_left where "sector_left = int32 (int BLOCK_SECTOR_SIZE - sector_ofs)"
  define min_left where "min_left = (if inode_left < sector_left then inode_left else sector_left)"
  define chunk_size where "chunk_size = (if sz < min_left then sz else min_left)"
  have step_a: "inode_read_loop st a sz offset bytes_read out =
     (if sz > 0 then
        (case byte_to_sector st b offset of
           Inl f \<Rightarrow> Inl f
         | Inr sector_idx \<Rightarrow>
             if chunk_size \<le> 0 then Inr (bytes_read, out)
             else
               (case (if sector_ofs = 0 \<and> chunk_size = int BLOCK_SECTOR_SIZE
                      then Inr (fs_cache_read st sector_idx)
                      else fs_cache_read_offset st sector_idx sector_ofs chunk_size) of
                  Inl f \<Rightarrow> Inl f
                | Inr data \<Rightarrow>
                    inode_read_loop st a (int32 (sz - chunk_size))
                      (int32 (offset + chunk_size)) (int32 (bytes_read + chunk_size))
                      (out @ data)))
      else Inr (bytes_read, out))"
    apply (subst inode_read_loop.simps [of st a sz offset bytes_read out])
    unfolding bs il Let_def chunk_size_def min_left_def sector_left_def inode_left_def sector_ofs_def
    apply (rule refl)
    done
  have step_b: "inode_read_loop st b sz offset bytes_read out =
     (if sz > 0 then
        (case byte_to_sector st b offset of
           Inl f \<Rightarrow> Inl f
         | Inr sector_idx \<Rightarrow>
             if chunk_size \<le> 0 then Inr (bytes_read, out)
             else
               (case (if sector_ofs = 0 \<and> chunk_size = int BLOCK_SECTOR_SIZE
                      then Inr (fs_cache_read st sector_idx)
                      else fs_cache_read_offset st sector_idx sector_ofs chunk_size) of
                  Inl f \<Rightarrow> Inl f
                | Inr data \<Rightarrow>
                    inode_read_loop st b (int32 (sz - chunk_size))
                      (int32 (offset + chunk_size)) (int32 (bytes_read + chunk_size))
                      (out @ data)))
      else Inr (bytes_read, out))"
    apply (subst inode_read_loop.simps [of st b sz offset bytes_read out])
    unfolding Let_def chunk_size_def min_left_def sector_left_def inode_left_def sector_ofs_def
    apply (rule refl)
    done
  show ?case
  proof (cases "sz > 0 \<and> \<not> chunk_size \<le> 0")
    case False
    then show ?thesis unfolding step_a step_b by (auto split: sum.splits)
  next
    case True
    then have c: "0 < chunk_size" "chunk_size \<le> sz"
      by (simp_all add: chunk_size_def split: if_splits)
    then have "int32 (sz - chunk_size) < sz" by (rule int32_decrease)
    with True have dec: "nat (int32 (sz - chunk_size)) < nat sz" by simp
    show ?thesis
      unfolding step_a step_b using less(1) [OF dec] by (auto split: sum.splits)
  qed
qed

lemma inode_write_loop_same_sector:
  assumes same: "sector_i a = sector_i b"
  shows "inode_write_loop st a src sz offset bytes_written = inode_write_loop st b src sz offset bytes_written"
proof (induction "nat sz" arbitrary: st sz offset bytes_written rule: less_induct)
  case less
  note bs = byte_to_sector_same_sector [OF same] and il = inode_length_same_sector [OF same]
  define sector_ofs where "sector_ofs = c_mod offset (int BLOCK_SECTOR_SIZE)"
  define inode_left where "inode_left = int32 (inode_length st b - offset)"
  define sector_left where "sector_left = int32 (int BLOCK_SECTOR_SIZE - sector_ofs)"
  define min_left where "min_left = (if inode_left < sector_left then inode_left else sector_left)"
  define chunk_size where "chunk_size = (if sz < min_left then sz else min_left)"
  have step_a: "inode_write_loop st a src sz offset bytes_written =
     (if sz > 0 then
        (case byte_to_sector st b offset of
           Inl f \<Rightarrow> Inl f
         | Inr sector_idx \<Rightarrow>
             if chunk_size \<le> 0 then Inr (bytes_written, st)
             else
               (case (if sector_ofs = 0 \<and> chunk_size = int BLOCK_SECTOR_SIZE
                      then Inr (fs_cache_write st sector_idx
                             (take BLOCK_SECTOR_SIZE (drop (nat bytes_written) src)))
                      else fs_cache_write_offset st sector_idx
                             (drop (nat bytes_written) src) sector_ofs chunk_size) of
                  Inl f \<Rightarrow> Inl f
                | Inr st1 \<Rightarrow>
                    inode_write_loop st1 a src (int32 (sz - chunk_size))
                      (int32 (offset + chunk_size)) (int32 (bytes_written + chunk_size))))
      else Inr (bytes_written, st))"
    apply (subst inode_write_loop.simps [of st a src sz offset bytes_written])
    unfolding bs il Let_def chunk_size_def min_left_def sector_left_def inode_left_def sector_ofs_def
    apply (rule refl)
    done
  have step_b: "inode_write_loop st b src sz offset bytes_written =
     (if sz > 0 then
        (case byte_to_sector st b offset of
           Inl f \<Rightarrow> Inl f
         | Inr sector_idx \<Rightarrow>
             if chunk_size \<le> 0 then Inr (bytes_written, st)
             else
               (case (if sector_ofs = 0 \<and> chunk_size = int BLOCK_SECTOR_SIZE
                      then Inr (fs_cache_write st sector_idx
                             (take BLOCK_SECTOR_SIZE (drop (nat bytes_written) src)))
                      else fs_cache_write_offset st sector_idx
                             (drop (nat bytes_written) src) sector_ofs chunk_size) of
                  Inl f \<Rightarrow> Inl f
                | Inr st1 \<Rightarrow>
                    inode_write_loop st1 b src (int32 (sz - chunk_size))
                      (int32 (offset + chunk_size)) (int32 (bytes_written + chunk_size))))
      else Inr (bytes_written, st))"
    apply (subst inode_write_loop.simps [of st b src sz offset bytes_written])
    unfolding Let_def chunk_size_def min_left_def sector_left_def inode_left_def sector_ofs_def
    apply (rule refl)
    done
  show ?case
  proof (cases "sz > 0 \<and> \<not> chunk_size \<le> 0")
    case False
    then show ?thesis unfolding step_a step_b by (auto split: sum.splits)
  next
    case True
    then have c: "0 < chunk_size" "chunk_size \<le> sz"
      by (simp_all add: chunk_size_def split: if_splits)
    then have "int32 (sz - chunk_size) < sz" by (rule int32_decrease)
    with True have dec: "nat (int32 (sz - chunk_size)) < nat sz" by simp
    show ?thesis
      unfolding step_a step_b using less(1) [OF dec] by (auto split: sum.splits)
  qed
qed

lemma inode_read_at_removed:
  "inode_read_at st (inode_remove inode) sz offset = inode_read_at st inode sz offset"
  unfolding inode_read_at_def
  by (rule inode_read_loop_same_sector) (simp add: inode_remove_def)

lemma inode_write_at_removed:
  "inode_write_at st (inode_remove inode) src sz offset = inode_write_at st inode src sz offset"
proof -
  have "inode_write_loop st1 (inode_remove inode) src sz offset 0
      = inode_write_loop st1 inode src sz offset 0" for st1
    by (rule inode_write_loop_same_sector) (simp add: inode_remove_def)
  moreover have "sector_i (inode_remove inode) = sector_i inode"
    "deny_write_cnt (inode_remove inode) = deny_write_cnt inode"
    by (simp_all add: inode_remove_def)
  ultimately show ?thesis by (simp add: inode_write_at_def Let_def)
qed

lemma inode_close_still_open:
  "open_cnt inode \<noteq> 1 \<Longrightarrow>
   inode_close st inode = Some (st, Some (inode\<lparr>open_cnt := open_cnt inode - 1\<rparr>))"
  by (simp add: inode_close_def Let_def)

lemma inode_close_last:
  assumes d: "d = inode_disk_of_sector (fs_cache_read st (sector_i inode))"
    and wf: "wf_inode st d"
    and cnt: "open_cnt inode = 1" and rm: "removed inode"
  shows "inode_close st inode =
     Some (st\<lparr>free_map := release_all (free_map st) (tree_sectors st d @ [sector_i inode])\<rparr>,
           None)"
proof -
  have r: "inode_resize st d 0 =
     Some (True, st\<lparr>free_map := release_all (free_map st) (tree_sectors st d)\<rparr>,
      d\<lparr>length_d := 0, direct_pointer := replicate 12 0, indirect_pointer := 0,
        doubly_indirect_pointer := 0\<rparr>)"
    by (rule inode_resize_zero [OF wf_prefix [OF wf]]) simp
  show ?thesis
    using cnt rm r
    by (simp add: inode_close_def Let_def d [symmetric] release_all_snoc)
qed

text \<open>
  Claim C4. \<open>inode_remove\<close> sets the flag \<open>removed\<close> and nothing else (it has no access to
  the device or the free map): reading and writing through the removed inode give what they
  give through the inode as it was, and a close that leaves other openers changes nothing
  but the count. The close that brings \<open>open_cnt\<close> to zero resizes the file to length 0
  and releases the sector of the inode: for a well-formed file of length \<open>L\<close> whose inode
  is in an allocated sector of its own, every sector of its tree and the sector of the inode
  are free afterwards, no other bit of the free map changes, and the number of free sectors
  has grown by \<open>inode_sectors L + 1\<close>, the number of sectors the file occupied.
\<close>

theorem deferred_delete:
  assumes d: "d = inode_disk_of_sector (fs_cache_read st (sector_i inode))"
    and wf: "wf_inode st d"
    and own: "in_use (free_map st) (sector_i inode)"
    and sep: "sector_i inode \<notin> set (tree_sectors st d)"
  shows "removed (inode_remove inode) \<and>
     inode_read_at st (inode_remove inode) sz offset = inode_read_at st inode sz offset \<and>
     inode_write_at st (inode_remove inode) src sz offset = inode_write_at st inode src sz offset \<and>
     (open_cnt inode \<noteq> 1 \<longrightarrow>
        inode_close st (inode_remove inode) =
          Some (st, Some (inode\<lparr>open_cnt := open_cnt inode - 1, removed := True\<rparr>))) \<and>
     (open_cnt inode = 1 \<longrightarrow>
        (\<exists>st'. inode_close st (inode_remove inode) = Some (st', None) \<and>
           sectors st' = sectors st \<and>
           free_count (free_map st') = free_count (free_map st) + inode_sectors (length_d d) + 1 \<and>
           (\<forall>s. in_use (free_map st') s \<longleftrightarrow>
                in_use (free_map st) s \<and> s \<noteq> sector_i inode \<and> s \<notin> set (tree_sectors st d))))"
proof (intro conjI impI)
  show "removed (inode_remove inode)" by (simp add: inode_remove_def)
  show "inode_read_at st (inode_remove inode) sz offset = inode_read_at st inode sz offset"
    by (rule inode_read_at_removed)
  show "inode_write_at st (inode_remove inode) src sz offset = inode_write_at st inode src sz offset"
    by (rule inode_write_at_removed)
next
  assume "open_cnt inode \<noteq> 1"
  then show "inode_close st (inode_remove inode) =
      Some (st, Some (inode\<lparr>open_cnt := open_cnt inode - 1, removed := True\<rparr>))"
    using inode_close_still_open [of "inode_remove inode" st] by (simp add: inode_remove_def)
next
  assume one: "open_cnt inode = 1"
  define ts where "ts = tree_sectors st d @ [sector_i inode]"
  define st' where "st' = st\<lparr>free_map := release_all (free_map st) ts\<rparr>"
  have d': "d = inode_disk_of_sector (fs_cache_read st (sector_i (inode_remove inode)))"
    using d by (simp add: inode_remove_def)
  have c: "inode_close st (inode_remove inode) = Some (st', None)"
    using inode_close_last [OF d' wf] one by (simp add: inode_remove_def st'_def ts_def)
  have dist: "distinct ts"
    using wf sep by (simp add: wf_inode_def ts_def)
  have used: "\<forall>s \<in> set ts. in_use (free_map st) s"
    using wf own by (simp add: wf_inode_def ts_def)
  have n: "free_count (free_map st') = free_count (free_map st) + inode_sectors (length_d d) + 1"
    using release_all_count [OF dist used] tree_sectors_length [OF wf]
    by (simp add: st'_def) (simp add: ts_def)
  have u: "\<forall>s. in_use (free_map st') s \<longleftrightarrow>
      in_use (free_map st) s \<and> s \<noteq> sector_i inode \<and> s \<notin> set (tree_sectors st d)"
    by (auto simp: st'_def release_all_in_use ts_def)
  have "sectors st' = sectors st" by (simp add: st'_def)
  with c n u show "\<exists>st'. inode_close st (inode_remove inode) = Some (st', None) \<and>
           sectors st' = sectors st \<and>
           free_count (free_map st') = free_count (free_map st) + inode_sectors (length_d d) + 1 \<and>
           (\<forall>s. in_use (free_map st') s \<longleftrightarrow>
                in_use (free_map st) s \<and> s \<noteq> sector_i inode \<and> s \<notin> set (tree_sectors st d))"
    by blast
qed

lemma tree_sectors_small_inode: "tree_sectors small_fs small_inode = [2, 3]"
  by (simp add: tree_sectors_def nonzero_def block_tree_def small_inode_def)

lemma inode_sectors_small_inode: "inode_sectors (length_d small_inode) = 2"
  using tree_sectors_length [OF wf_small_inode] by (simp add: tree_sectors_small_inode)

theorem deferred_delete_witness:
  "small_inode = inode_disk_of_sector (fs_cache_read small_fs (sector_i small_file)) \<and>
   wf_inode small_fs small_inode \<and>
   in_use (free_map small_fs) (sector_i small_file) \<and>
   sector_i small_file \<notin> set (tree_sectors small_fs small_inode) \<and>
   open_cnt small_file = 1 \<and>
   (\<exists>st'. inode_close small_fs (inode_remove small_file) = Some (st', None) \<and>
      free_count (free_map small_fs) = 27 \<and> free_count (free_map st') = 30 \<and>
      \<not> in_use (free_map st') 2 \<and> \<not> in_use (free_map st') 3 \<and> \<not> in_use (free_map st') 4)"
proof -
  have d: "small_inode = inode_disk_of_sector (fs_cache_read small_fs (sector_i small_file))"
    by (simp add: small_inode_on_disk)
  have own: "in_use (free_map small_fs) (sector_i small_file)"
    by (simp add: in_use_def small_fs_def small_file_def)
  have sep: "sector_i small_file \<notin> set (tree_sectors small_fs small_inode)"
    by (simp add: tree_sectors_small_inode small_file_def)
  have one: "open_cnt small_file = 1" by (simp add: small_file_def)
  from deferred_delete [OF d wf_small_inode own sep, of 0 0 "[]"] one
  obtain st' where c: "inode_close small_fs (inode_remove small_file) = Some (st', None)"
    and n: "free_count (free_map st')
        = free_count (free_map small_fs) + inode_sectors (length_d small_inode) + 1"
    and u: "\<forall>s. in_use (free_map st') s \<longleftrightarrow>
        in_use (free_map small_fs) s \<and> s \<noteq> sector_i small_file
        \<and> s \<notin> set (tree_sectors small_fs small_inode)"
    by blast
  from n have n': "free_count (free_map st') = 30"
    by (simp add: free_count_small_fs inode_sectors_small_inode)
  from u have "\<not> in_use (free_map st') 2" "\<not> in_use (free_map st') 3" "\<not> in_use (free_map st') 4"
    by (simp_all add: tree_sectors_small_inode small_file_def)
  with c n' d wf_small_inode own sep one show ?thesis
    by (simp add: free_count_small_fs)
qed

end
